theory Spec2Isabelle
  imports Main "HOL-Library.Word"
begin

unbundle bit_operations_syntax

section \<open>BitmapRange (fixed\_size\_bitmap.hpp)\<close>

text \<open>
  The class template \<open>BitmapRange<T, Diff, NBITS>\<close> is embedded with
  \<^item> \<open>T\<close> the integers (\<^typ>\<open>int\<close>): \<open>>=\<close>, \<open>==\<close> and \<open>>\<close> are the order of the
    integers and \<open>T + uint32_t\<close> adds the unsigned value of the word, so that items are
    never taken modulo the width of \<open>T\<close> (the data model has callers keep the window
    clear of an overflow of \<open>T\<close>);
  \<^item> \<open>Diff\<close> the default \<open>DiffFunction<T>\<close>, \<open>a - b\<close>, whose result every caller
    assigns to a \<open>uint32_t\<close>: the difference is taken modulo \<open>2^32\<close>;
  \<^item> \<open>NBITS\<close> a parameter of type \<open>uint32_t\<close> (the template's default is 256);
  \<^item> \<open>uint32_t\<close> as \<^typ>\<open>32 word\<close>; \<open>size_t\<close> indices and \<open>unsigned long\<close> intermediate
    values (64 bits wide, which none of them exceeds) as \<^typ>\<open>nat\<close>;
  \<^item> \<open>std::array<uint32_t, NITEMS>\<close> as a list of words. Indexing the array out of
    range is undefined in the source; every theorem below that reads or writes the
    bitmap carries the hypotheses under which all indices are in range;
  \<^item> the branch of the source that is not for \<open>_MSC_VER\<close> (\<open>__builtin_clz\<close>); the other
    branch computes the same offsets from \<open>_BitScanReverse\<close>;
  \<^item> \<open>for_each(f)\<close> as the list of the items \<open>f\<close> is called with, in call order.
  The members \<open>base_\<close>, \<open>range_max_\<close>, \<open>bitmap_\<close> and \<open>num_bits_\<close> are the fields \<open>base\<close>,
  \<open>range_max\<close>, \<open>bitmap\<close> and \<open>num_bits\<close> of the record; the getter \<open>base()\<close> is the field
  itself, the setter \<open>base(T)\<close> is \<open>set_base\<close> and \<open>max()\<close> is \<open>max_item\<close>.
\<close>

type_synonym u32 = "32 word"

text \<open>
  \<open>DiffFunction<T>::operator()\<close> as the callers use it,
  \<open>uint32_t diff = d_func(item, base_)\<close>: the difference, converted to \<open>uint32_t\<close>.
\<close>

definition d_func :: "int \<Rightarrow> int \<Rightarrow> u32" where
  "d_func a b = word_of_int (a - b)"

text \<open>\<open>#define NITEMS ((NBITS + 31ul) / 32ul)\<close>\<close>

definition NITEMS :: "u32 \<Rightarrow> nat" where
  "NITEMS NBITS = (unat NBITS + 31) div 32"

text \<open>The data members of a range.\<close>

record bitmap_range =
  base :: int
  range_max :: int
  bitmap :: "u32 list"
  num_bits :: u32

text \<open>\<open>bitmap_.fill(0UL)\<close>\<close>

definition fill :: "u32 list \<Rightarrow> u32 \<Rightarrow> u32 list" where
  "fill bm v = map (\<lambda>_. v) bm"

text \<open>The constructors: \<open>BitmapRange()\<close> is \<open>BitmapRange NBITS 0\<close>.\<close>

definition BitmapRange :: "u32 \<Rightarrow> int \<Rightarrow> bitmap_range" where
  "BitmapRange NBITS b =
     \<lparr>base = b, range_max = b + uint (NBITS - 1),
      bitmap = replicate (NITEMS NBITS) 0, num_bits = 0\<rparr>"

text \<open>\<open>void base(T base)\<close>\<close>

definition set_base :: "u32 \<Rightarrow> bitmap_range \<Rightarrow> int \<Rightarrow> bitmap_range" where
  "set_base NBITS r b =
     r\<lparr>base := b, range_max := b + uint (NBITS - 1), num_bits := 0,
       bitmap := fill (bitmap r) 0\<rparr>"

text \<open>\<open>bool empty()\<close> and \<open>T max()\<close>; \<open>num_bits_ - 1\<close> is computed in \<open>uint32_t\<close>.\<close>

definition empty :: "bitmap_range \<Rightarrow> bool" where
  "empty r \<longleftrightarrow> num_bits r = 0"

definition max_item :: "bitmap_range \<Rightarrow> int" where
  "max_item r = base r + uint (num_bits r - 1)"

text \<open>\<open>bool add(const T& item)\<close>: the returned flag and the state afterwards.\<close>

definition add :: "bitmap_range \<Rightarrow> int \<Rightarrow> bool \<times> bitmap_range" where
  "add r item =
     (if item \<ge> base r \<and> range_max r \<ge> item then
        let diff = d_func item (base r);
            nb = max (diff + 1) (num_bits r);
            pos = unat (drop_bit 5 diff);
            diff' = diff AND 31;
            bm = (bitmap r)[pos := (bitmap r ! pos) OR push_bit (31 - unat diff') 1]
        in (True, r\<lparr>bitmap := bm, num_bits := nb\<rparr>)
      else (False, r))"

text \<open>\<open>bitmap_get\<close>: the three output parameters.\<close>

definition bitmap_get :: "bitmap_range \<Rightarrow> u32 \<times> u32 list \<times> u32" where
  "bitmap_get r =
     (num_bits r, bitmap r, word_of_nat ((unat (num_bits r) + 31) div 32))"

text \<open>
  \<open>memcpy(dst, src, n)\<close> on arrays of \<open>uint32_t\<close>, for \<open>n\<close> a multiple of
  \<open>sizeof(uint32_t) = 4\<close>: the first \<open>n div 4\<close> words of \<open>dst\<close> are replaced by those
  of \<open>src\<close>. The source requires both arrays to hold that many words.
\<close>

definition memcpy :: "u32 list \<Rightarrow> u32 list \<Rightarrow> nat \<Rightarrow> u32 list" where
  "memcpy dst src n = take (n div 4) src @ drop (n div 4) dst"

definition bitmap_set :: "u32 \<Rightarrow> bitmap_range \<Rightarrow> u32 \<Rightarrow> u32 list \<Rightarrow> bitmap_range" where
  "bitmap_set NBITS r nbits ws =
     (let nb = min nbits NBITS;
          num_bytes = (word_of_nat (((unat nb + 31) div 32) * 4) :: u32)
      in r\<lparr>num_bits := nb,
           bitmap := memcpy (fill (bitmap r) 0) ws (unat num_bytes)\<rparr>)"

subsection \<open>Enumeration\<close>

text \<open>
  \<open>__builtin_clz\<close>: the number of leading zero bits of a 32-bit value, counted from
  the most significant bit down. The builtin is undefined at 0, where the source
  never calls it; \<open>clz_from 32\<close> is 32 there.
\<close>

fun clz_from :: "nat \<Rightarrow> u32 \<Rightarrow> nat" where
  "clz_from 0 w = 0"
| "clz_from (Suc n) w = (if bit w n then 0 else Suc (clz_from n w))"

definition builtin_clz :: "u32 \<Rightarrow> nat" where
  "builtin_clz w = clz_from 32 w"

lemma clz_from_le: "clz_from n w \<le> n"
  by (induction n) auto

lemma clz_from_zeros: "j < clz_from n w \<Longrightarrow> \<not> bit w (n - 1 - j)"
proof (induction n arbitrary: j)
  case 0
  then show ?case by simp
next
  case (Suc n)
  show ?case
  proof (cases "bit w n")
    case True
    with Suc.prems show ?thesis by simp
  next
    case False
    show ?thesis
    proof (cases j)
      case 0
      with False show ?thesis by simp
    next
      case (Suc j')
      with Suc.prems False have "j' < clz_from n w" by simp
      from Suc.IH [OF this] Suc show ?thesis by simp
    qed
  qed
qed

lemma clz_from_hit: "clz_from n w < n \<Longrightarrow> bit w (n - 1 - clz_from n w)"
  by (induction n) (auto split: if_splits)

lemma clz_from_nonzero:
  assumes "w \<noteq> 0"
  shows "clz_from 32 w < 32"
proof (rule ccontr)
  assume "\<not> clz_from 32 w < 32"
  with clz_from_le [of 32 w] have full: "clz_from 32 w = 32" by simp
  have "\<not> bit w k" for k
  proof (cases "k < 32")
    case True
    then have "31 - k < clz_from 32 w" using full by simp
    from clz_from_zeros [OF this] True show ?thesis by simp
  next
    case False
    then show ?thesis by (auto dest: bit_imp_le_length)
  qed
  then have "w = 0" by (intro bit_eqI) simp
  with assms show False by simp
qed

lemma builtin_clz_less: "w \<noteq> 0 \<Longrightarrow> builtin_clz w < 32"
  by (simp add: builtin_clz_def clz_from_nonzero)

lemma builtin_clz_bit: "w \<noteq> 0 \<Longrightarrow> bit w (31 - builtin_clz w)"
  using clz_from_hit [of 32 w] by (simp add: builtin_clz_def clz_from_nonzero)

lemma builtin_clz_zeros: "j < builtin_clz w \<Longrightarrow> \<not> bit w (31 - j)"
  using clz_from_zeros [of j 32 w] by (simp add: builtin_clz_def)

text \<open>
  The inner \<open>while (bits)\<close> loop of \<open>for_each\<close>: the items \<open>f\<close> is called with, in
  call order, for one word of the bitmap.
\<close>

function emit_bits :: "int \<Rightarrow> u32 \<Rightarrow> int list" where
  "emit_bits item bits =
     (if bits = 0 then []
      else let offset = builtin_clz bits;
               b = 31 - offset
           in (item + int offset) # emit_bits item (bits AND NOT (push_bit b 1)))"
  by pat_completeness auto

lemma clear_bit_positions:
  fixes w :: u32
  shows "{n. bit (w AND NOT (push_bit b 1)) n} = {n. bit w n} - {b}"
  by (auto simp add: bit_simps dest: bit_imp_le_length)

lemma finite_bit_positions: "finite {n. bit (w :: u32) n}"
proof (rule finite_subset)
  show "{n. bit w n} \<subseteq> {..<32}" by (auto dest: bit_imp_le_length)
qed simp

termination emit_bits
proof (relation "measure (\<lambda>(item, bits). card {n. bit bits n})")
  show "wf (measure (\<lambda>(item, bits). card {n. bit bits n}))" by simp
next
  fix item :: int and bits :: u32 and x xa
  assume nz: "bits \<noteq> 0" and x: "x = builtin_clz bits" and xa: "xa = 31 - x"
  have "bit bits xa" using builtin_clz_bit [OF nz] x xa by simp
  then have "card ({n. bit bits n} - {xa}) < card {n. bit bits n}"
    by (intro card_Diff1_less finite_bit_positions) simp
  then show "((item, bits AND NOT (push_bit xa 1)), (item, bits))
      \<in> measure (\<lambda>(item, bits). card {n. bit bits n})"
    by (simp only: in_measure prod.case clear_bit_positions)
qed

text \<open>The outer loop over the words \<open>i, i + 1, \<dots>\<close>; \<open>k\<close> counts the words left.\<close>

fun for_each_loop :: "u32 list \<Rightarrow> int \<Rightarrow> nat \<Rightarrow> nat \<Rightarrow> int list" where
  "for_each_loop bm item i 0 = []"
| "for_each_loop bm item i (Suc k) =
     emit_bits item (bm ! i) @ for_each_loop bm (item + 32) (Suc i) k"

definition for_each :: "bitmap_range \<Rightarrow> int list" where
  "for_each r =
     (let n_longs = (unat (num_bits r) + 31) div 32
      in for_each_loop (bitmap r) (base r) 0 n_longs)"

subsection \<open>Sliding the window\<close>

text \<open>
  \<open>std::copy(first, last, d_first)\<close> on positions of the one array: \<open>k\<close> elements are
  assigned one after the other, reading at \<open>src\<close> and writing at \<open>dst\<close>, both moving
  up. \<open>std_copy_rev\<close> is the same call on reverse iterators: position \<open>j\<close> of a
  reverse iterator is the element \<open>length bm - 1 - j\<close>.
\<close>

fun std_copy :: "u32 list \<Rightarrow> nat \<Rightarrow> nat \<Rightarrow> nat \<Rightarrow> u32 list" where
  "std_copy bm src dst 0 = bm"
| "std_copy bm src dst (Suc k) = std_copy (bm[dst := bm ! src]) (Suc src) (Suc dst) k"

fun std_copy_rev :: "u32 list \<Rightarrow> nat \<Rightarrow> nat \<Rightarrow> nat \<Rightarrow> u32 list" where
  "std_copy_rev bm src dst 0 = bm"
| "std_copy_rev bm src dst (Suc k) =
     std_copy_rev (bm[length bm - 1 - dst := bm ! (length bm - 1 - src)]) (Suc src) (Suc dst) k"

text \<open>\<open>std::fill_n(bitmap_.begin(), n, 0)\<close> and \<open>std::fill_n(bitmap_.rbegin(), n, 0)\<close>\<close>

fun fill_n :: "u32 list \<Rightarrow> nat \<Rightarrow> nat \<Rightarrow> u32 \<Rightarrow> u32 list" where
  "fill_n bm pos 0 v = bm"
| "fill_n bm pos (Suc k) v = fill_n (bm[pos := v]) (Suc pos) k v"

fun fill_n_rev :: "u32 list \<Rightarrow> nat \<Rightarrow> nat \<Rightarrow> u32 \<Rightarrow> u32 list" where
  "fill_n_rev bm pos 0 v = bm"
| "fill_n_rev bm pos (Suc k) v = fill_n_rev (bm[length bm - 1 - pos := v]) (Suc pos) k v"

text \<open>
  The loop of \<open>shift_map_left\<close>:
  \<open>for (size_t i = 0, n = n_items; n < last_index; i++, n++)\<close>
\<close>

function shift_left_loop :: "u32 list \<Rightarrow> u32 \<Rightarrow> u32 \<Rightarrow> nat \<Rightarrow> nat \<Rightarrow> nat \<Rightarrow> u32 list" where
  "shift_left_loop bm n_bits overflow_bits last_index i n =
     (if n < last_index then
        shift_left_loop
          (bm[i := push_bit (unat n_bits) (bm ! n) OR drop_bit (unat overflow_bits) (bm ! (n + 1))])
          n_bits overflow_bits last_index (Suc i) (Suc n)
      else bm)"
  by pat_completeness auto

termination shift_left_loop
  by (relation "measure (\<lambda>(bm, n_bits, overflow_bits, last_index, i, n). last_index - n)") auto

definition shift_map_left :: "u32 \<Rightarrow> bitmap_range \<Rightarrow> u32 \<Rightarrow> bitmap_range" where
  "shift_map_left NBITS r n_bits =
     (if n_bits \<ge> num_bits r then r\<lparr>num_bits := 0, bitmap := fill (bitmap r) 0\<rparr>
      else
        let nb = num_bits r - n_bits;
            n_items = unat (drop_bit 5 n_bits);
            n_bits' = n_bits AND 31
        in if n_bits' = 0 then
             let bm1 = std_copy (bitmap r) n_items 0 (length (bitmap r) - n_items)
             in r\<lparr>num_bits := nb, bitmap := fill_n_rev bm1 0 n_items 0\<rparr>
           else
             let overflow_bits = 32 - n_bits';
                 last_index = NITEMS NBITS - 1;
                 bm1 = shift_left_loop (bitmap r) n_bits' overflow_bits last_index 0 n_items;
                 bm2 = bm1[last_index - n_items := push_bit (unat n_bits') (bm1 ! last_index)]
             in r\<lparr>num_bits := nb, bitmap := fill_n_rev bm2 0 n_items 0\<rparr>)"

text \<open>
  The loop of \<open>shift_map_right\<close>:
  \<open>for (size_t i = last_index, n = last_index - n_items; n > 0; i--, n--)\<close>
\<close>

fun shift_right_loop :: "u32 list \<Rightarrow> u32 \<Rightarrow> u32 \<Rightarrow> nat \<Rightarrow> nat \<Rightarrow> u32 list" where
  "shift_right_loop bm n_bits overflow_bits i 0 = bm"
| "shift_right_loop bm n_bits overflow_bits i (Suc n) =
     shift_right_loop
       (bm[i := drop_bit (unat n_bits) (bm ! Suc n) OR push_bit (unat overflow_bits) (bm ! n)])
       n_bits overflow_bits (i - 1) n"

text \<open>
  The scan for the new watermark,
  \<open>for (uint32_t i = NITEMS; i > n_items;) { --i; ... }\<close>, with \<open>new_num_bits = 0\<close>
  before it: the loop variable is \<open>Suc i\<close> at the test and \<open>i\<close> after \<open>--i\<close>.
\<close>

fun find_new_max :: "u32 list \<Rightarrow> nat \<Rightarrow> nat \<Rightarrow> u32" where
  "find_new_max bm n_items 0 = 0"
| "find_new_max bm n_items (Suc i) =
     (if Suc i > n_items then
        let bits = bm ! i
        in if bits \<noteq> 0 then
             let bits' = bits AND NOT (bits - 1);
                 offset = (word_of_nat (builtin_clz bits') :: u32) + 1
             in push_bit 5 (word_of_nat i) + offset
           else find_new_max bm n_items i
      else 0)"

definition shift_map_right :: "u32 \<Rightarrow> bitmap_range \<Rightarrow> u32 \<Rightarrow> bitmap_range" where
  "shift_map_right NBITS r n_bits =
     (if n_bits \<ge> NBITS then r\<lparr>num_bits := 0, bitmap := fill (bitmap r) 0\<rparr>
      else
        let new_num_bits = num_bits r + n_bits;
            find_max = (new_num_bits > NBITS);
            n_items = unat (drop_bit 5 n_bits);
            n_bits' = n_bits AND 31;
            bm = (if n_bits' = 0 then
                    let bm1 = std_copy_rev (bitmap r) n_items 0 (length (bitmap r) - n_items)
                    in fill_n bm1 0 n_items 0
                  else
                    let overflow_bits = 32 - n_bits';
                        last_index = NITEMS NBITS - 1;
                        bm1 = shift_right_loop (bitmap r) n_bits' overflow_bits
                                last_index (last_index - n_items);
                        bm2 = bm1[n_items := drop_bit (unat n_bits') (bm1 ! 0)]
                    in fill_n bm2 0 n_items 0)
        in r\<lparr>num_bits := (if find_max then find_new_max bm n_items (NITEMS NBITS)
                            else new_num_bits),
             bitmap := bm\<rparr>)"

text \<open>\<open>void base_update(T base)\<close>\<close>

definition base_update :: "u32 \<Rightarrow> bitmap_range \<Rightarrow> int \<Rightarrow> bitmap_range" where
  "base_update NBITS r b =
     (if b = base r then r
      else
        let r' = (if b > base r then shift_map_left NBITS r (d_func b (base r))
                  else shift_map_right NBITS r (d_func (base r) b))
        in r'\<lparr>base := b, range_max := b + uint (NBITS - 1)\<rparr>)"

section \<open>Notions of the specification\<close>

text \<open>
  The bit of an offset, as the data model lays the bitmap out: word \<open>k div 32\<close>, bit
  position \<open>31 - k mod 32\<close> (the most significant bit of a word is its smallest offset).
  An offset beyond the array has no bit.
\<close>

definition bit_at :: "u32 list \<Rightarrow> nat \<Rightarrow> bool" where
  "bit_at bm k \<longleftrightarrow> k div 32 < length bm \<and> bit (bm ! (k div 32)) (31 - k mod 32)"

text \<open>The number of words \<open>for_each\<close> and \<open>bitmap_get\<close> take as used: \<open>(num_bits_ + 31) / 32\<close>.\<close>

definition n_longs :: "bitmap_range \<Rightarrow> nat" where
  "n_longs r = (unat (num_bits r) + 31) div 32"

text \<open>A sequence of \<open>add\<close> calls, the returned flags dropped.\<close>

definition add_all :: "bitmap_range \<Rightarrow> int list \<Rightarrow> bitmap_range" where
  "add_all r xs = fold (\<lambda>x r. snd (add r x)) xs r"

subsection \<open>The word-level reference of the two shifts\<close>

text \<open>
  Written from the specification's bit-level shift specification, not from the code: the
  destination words of a left and of a right shift by \<open>s = 32 * w + r\<close> bits, each
  computed from the source array, for \<open>r = 0\<close> (word copies, zero fill) and for
  \<open>0 < r < 32\<close>. \<open>NW\<close> is the number of words.
\<close>

definition spec_shift_left :: "u32 list \<Rightarrow> nat \<Rightarrow> u32 list" where
  "spec_shift_left src s =
     (let NW = length src; w = s div 32; r = s mod 32
      in map (\<lambda>d. if r = 0 then (if d < NW - w then src ! (d + w) else 0)
                   else if d < NW - w - 1
                     then push_bit r (src ! (d + w)) OR drop_bit (32 - r) (src ! (d + w + 1))
                   else if d = NW - w - 1 then push_bit r (src ! (NW - 1))
                   else 0) [0..<NW])"

definition spec_shift_right :: "u32 list \<Rightarrow> nat \<Rightarrow> u32 list" where
  "spec_shift_right src s =
     (let NW = length src; w = s div 32; r = s mod 32
      in map (\<lambda>d. if r = 0 then (if w \<le> d then src ! (d - w) else 0)
                   else if w + 1 \<le> d
                     then drop_bit r (src ! (d - w)) OR push_bit (32 - r) (src ! (d - w - 1))
                   else if d = w then drop_bit r (src ! 0)
                   else 0) [0..<NW])"

subsection \<open>Invariants\<close>

text \<open>
  The sizes the theorems below are proved for: \<open>NBITS\<close> positive (the array has a last
  element) and at most \<open>2^30\<close>, so that no \<open>uint32_t\<close> sum of two watermarks wraps.
\<close>

definition valid_NBITS :: "u32 \<Rightarrow> bool" where
  "valid_NBITS NBITS \<longleftrightarrow> 0 < NBITS \<and> NBITS \<le> 2 ^ 30"

text \<open>
  Invariants 1 and 2 of the data model, with the array's size: the bitmap has \<open>NITEMS\<close>
  words, \<open>range_max = base + (NBITS - 1)\<close>, and the watermark does not exceed the
  bits the array holds.
\<close>

definition well_formed :: "u32 \<Rightarrow> bitmap_range \<Rightarrow> bool" where
  "well_formed NBITS r \<longleftrightarrow>
     length (bitmap r) = NITEMS NBITS \<and> range_max r = base r + uint (NBITS - 1)
     \<and> unat (num_bits r) \<le> 32 * NITEMS NBITS"

text \<open>Invariant 3: every set bit lies below the watermark.\<close>

definition watermark_bound :: "bitmap_range \<Rightarrow> bool" where
  "watermark_bound r \<longleftrightarrow> (\<forall>k. bit_at (bitmap r) k \<longrightarrow> k < unat (num_bits r))"

text \<open>
  The watermark is tight: the range is empty, or the bit just below the watermark is
  set (\<open>num_bits_\<close> "holds the highest bit set").
\<close>

definition watermark_tight :: "bitmap_range \<Rightarrow> bool" where
  "watermark_tight r \<longleftrightarrow> num_bits r = 0 \<or> bit_at (bitmap r) (unat (num_bits r) - 1)"

subsection \<open>Sequences of public operations\<close>

text \<open>
  The states a range goes through: it is constructed with a base, and then changed by
  \<open>base(T)\<close>, \<open>base_update\<close>, \<open>add\<close> and \<open>bitmap_set\<close> (the other public members are
  \<open>const\<close>). \<open>bitmap_set\<close> reads \<open>(num_bits_ + 31) / 32\<close> words through its pointer, so
  the array it is given holds at least as many. With \<open>tidy\<close> set, only those calls of
  \<open>bitmap_set\<close> are considered whose words have no bit set at or above the (clamped)
  \<open>num_bits\<close> they come with.
\<close>

definition tidy_input :: "u32 \<Rightarrow> u32 \<Rightarrow> u32 list \<Rightarrow> bool" where
  "tidy_input NBITS nbits ws \<longleftrightarrow>
     (\<forall>k. bit_at (take ((unat (min nbits NBITS) + 31) div 32) ws) k
            \<longrightarrow> k < unat (min nbits NBITS))"

inductive reachable :: "bool \<Rightarrow> u32 \<Rightarrow> bitmap_range \<Rightarrow> bool"
  for tidy :: bool and NBITS :: u32 where
  constructed: "reachable tidy NBITS (BitmapRange NBITS b)"
| after_set_base: "reachable tidy NBITS r \<Longrightarrow> reachable tidy NBITS (set_base NBITS r b)"
| after_base_update: "reachable tidy NBITS r \<Longrightarrow> reachable tidy NBITS (base_update NBITS r b)"
| after_add: "reachable tidy NBITS r \<Longrightarrow> reachable tidy NBITS (snd (add r x))"
| after_bitmap_set:
    "reachable tidy NBITS r \<Longrightarrow> (unat (min nbits NBITS) + 31) div 32 \<le> length ws \<Longrightarrow>
     (tidy \<Longrightarrow> tidy_input NBITS nbits ws) \<Longrightarrow>
     reachable tidy NBITS (bitmap_set NBITS r nbits ws)"

text \<open>
  The sequences along which the watermark stays tight: every call of \<open>bitmap_set\<close> is
  given words whose highest set bit is the one just below the (clamped) \<open>num_bits\<close> of
  the call, or no set bit and \<open>num_bits = 0\<close>; and \<open>base_update\<close> is not called with a base
  below the current one while the range is empty.
\<close>

definition tight_input :: "u32 \<Rightarrow> u32 \<Rightarrow> u32 list \<Rightarrow> bool" where
  "tight_input NBITS nbits ws \<longleftrightarrow>
     min nbits NBITS = 0 \<or> bit_at ws (unat (min nbits NBITS) - 1)"

inductive reachable_tight :: "u32 \<Rightarrow> bitmap_range \<Rightarrow> bool"
  for NBITS :: u32 where
  tight_constructed: "reachable_tight NBITS (BitmapRange NBITS b)"
| tight_set_base: "reachable_tight NBITS r \<Longrightarrow> reachable_tight NBITS (set_base NBITS r b)"
| tight_base_update:
    "reachable_tight NBITS r \<Longrightarrow> (b < base r \<Longrightarrow> \<not> empty r) \<Longrightarrow>
     reachable_tight NBITS (base_update NBITS r b)"
| tight_add: "reachable_tight NBITS r \<Longrightarrow> reachable_tight NBITS (snd (add r x))"
| tight_bitmap_set:
    "reachable_tight NBITS r \<Longrightarrow> (unat (min nbits NBITS) + 31) div 32 \<le> length ws \<Longrightarrow>
     tidy_input NBITS nbits ws \<Longrightarrow> tight_input NBITS nbits ws \<Longrightarrow>
     reachable_tight NBITS (bitmap_set NBITS r nbits ws)"

section \<open>Scenarios\<close>

text \<open>Scenario 2 of the specification: \<open>BitmapRange(1000)\<close>, then 1000, 1005 and 1255 added.\<close>

definition scenario2 :: bitmap_range where
  "scenario2 = add_all (BitmapRange 256 1000) [1000, 1005, 1255]"

text \<open>The start of scenario 5: \<open>BitmapRange(1000)\<close>, then 1000 and 1200 added.\<close>

definition scenario5 :: bitmap_range where
  "scenario5 = add_all (BitmapRange 256 1000) [1000, 1200]"

text \<open>
  A range filled from the wire: \<open>bitmap_set(1, w)\<close> on \<open>BitmapRange(1000)\<close>, where the one
  word \<open>w\<close> has the bit of offset 5 set (\<open>2^26\<close>, at or above \<open>num_bits = 1\<close>).
\<close>

definition stray_bits :: bitmap_range where
  "stray_bits = bitmap_set 256 (BitmapRange 256 1000) 1 [67108864]"

text \<open>
  A range filled from the wire with 5 significant bits, none of them set:
  \<open>bitmap_set(5, w)\<close> on \<open>BitmapRange(1000)\<close> with \<open>w = 0\<close>.
\<close>

definition wire_zero :: bitmap_range where
  "wire_zero = bitmap_set 256 (BitmapRange 256 1000) 5 [0]"

text \<open>An empty range moved down: \<open>BitmapRange(1000)\<close>, then \<open>base_update(900)\<close>.\<close>

definition empty_slid :: bitmap_range where
  "empty_slid = base_update 256 (BitmapRange 256 1000) 900"

text \<open>
  A range filled from the wire with 40 significant bits (offsets 0 to 3 and 39 set,
  none at or above 40), then 1100 and 1250 added.
\<close>

definition wire_range :: bitmap_range where
  "wire_range =
     add_all (bitmap_set 256 (BitmapRange 256 1000) 40 [4026531840, 16777216]) [1100, 1250]"

text \<open>The range \<open>BitmapRange(0)\<close> holding item 0, to be moved by \<open>2^32\<close>.\<close>

definition far_range :: bitmap_range where
  "far_range = add_all (BitmapRange 256 0) [0]"

text \<open>
  Ranges of \<open>NBITS = 40\<close> bits, not a multiple of 32: one holding its last item, one
  holding item 1005.
\<close>

definition odd_inner :: bitmap_range where
  "odd_inner = add_all (BitmapRange 40 1000) [1005]"

definition odd_range :: bitmap_range where
  "odd_range = add_all (BitmapRange 40 1000) [1039]"

section \<open>Properties of the operations\<close>

subsection \<open>The enumeration as a list of offsets\<close>

declare emit_bits.simps [simp del]

lemma filter_upt_none: "(\<And>j. j < n \<Longrightarrow> \<not> P j) \<Longrightarrow> filter P [0..<n] = []"
  by (simp add: filter_empty_conv)

lemma emit_bits_eq:
  "emit_bits item w = map (\<lambda>j. item + int j) (filter (\<lambda>j. bit w (31 - j)) [0..<32])"
proof (induction item w rule: emit_bits.induct)
  case (1 item bits)
  show ?case
  proof (cases "bits = 0")
    case True
    then show ?thesis by (simp add: emit_bits.simps)
  next
    case False
    define c where "c = builtin_clz bits"
    define w' where "w' = bits AND NOT (push_bit (31 - c) 1)"
    have c32: "c < 32" using builtin_clz_less [OF False] by (simp add: c_def)
    have hit: "bit bits (31 - c)" using builtin_clz_bit [OF False] by (simp add: c_def)
    have zeros: "\<not> bit bits (31 - j)" if "j < c" for j
      using builtin_clz_zeros that by (simp add: c_def)
    have IH: "emit_bits item w' = map (\<lambda>j. item + int j) (filter (\<lambda>j. bit w' (31 - j)) [0..<32])"
      using "1.IH" [OF False refl refl] by (simp add: c_def w'_def)
    have w'_bit: "bit w' (31 - j) \<longleftrightarrow> bit bits (31 - j) \<and> j \<noteq> c" if "j < 32" for j
      using that c32 by (auto simp add: w'_def bit_simps)
    have split: "[0..<32] = [0..<c] @ c # [Suc c..<32]"
      using c32 by (metis less_imp_le_nat upt_add_eq_append upt_conv_Cons le0 le_add_diff_inverse plus_nat.add_0)
    have f1: "filter (\<lambda>j. bit bits (31 - j)) [0..<32] = c # filter (\<lambda>j. bit bits (31 - j)) [Suc c..<32]"
      unfolding split using zeros hit by (simp add: filter_empty_conv)
    have f2: "filter (\<lambda>j. bit w' (31 - j)) [0..<32] = filter (\<lambda>j. bit bits (31 - j)) [Suc c..<32]"
    proof -
      have "filter (\<lambda>j. bit w' (31 - j)) [0..<c] = []"
        using zeros c32 by (simp add: filter_empty_conv w'_bit)
      moreover have "filter (\<lambda>j. bit w' (31 - j)) [Suc c..<32] = filter (\<lambda>j. bit bits (31 - j)) [Suc c..<32]"
        by (rule filter_cong) (auto simp add: w'_bit)
      ultimately show ?thesis unfolding split using c32 by (simp add: w'_bit)
    qed
    have "emit_bits item bits = (item + int c) # emit_bits item w'"
      using False by (subst emit_bits.simps) (simp add: c_def w'_def Let_def)
    then show ?thesis by (simp add: IH f1 f2)
  qed
qed

lemma word_offsets:
  "filter (bit_at bm) [32 * i..<32 * i + 32] =
     (if i < length bm then map (\<lambda>j. 32 * i + j) (filter (\<lambda>j. bit (bm ! i) (31 - j)) [0..<32]) else [])"
proof -
  have "[32 * i..<32 * i + 32] = map (\<lambda>j. 32 * i + j) [0..<32]"
    using map_add_upt [of "32 * i" 32] by (simp add: add.commute)
  moreover have "filter (\<lambda>x. i + x div 32 < length bm \<and> bit (bm ! (i + x div 32)) (31 - x mod 32)) [0..<32]
      = filter (\<lambda>j. bit (bm ! i) (31 - j)) [0..<32]" if "i < length bm"
    by (rule filter_cong) (use that in auto)
  ultimately show ?thesis
    by (simp add: filter_map comp_def bit_at_def filter_empty_conv)
qed

lemma for_each_loop_eq:
  "i + k \<le> length bm \<Longrightarrow>
   for_each_loop bm (b + int (32 * i)) i k =
     map (\<lambda>o'. b + int o') (filter (bit_at bm) [32 * i..<32 * (i + k)])"
proof (induction k arbitrary: i)
  case 0
  then show ?case by simp
next
  case (Suc k)
  have split: "[32 * i..<32 * (i + Suc k)] = [32 * i..<32 * i + 32] @ [32 * Suc i..<32 * (Suc i + k)]"
    using upt_add_eq_append [of "32 * i" "32 * i + 32" "32 * k"] by (simp add: algebra_simps)
  have "for_each_loop bm (b + int (32 * i) + 32) (Suc i) k =
      map (\<lambda>o'. b + int o') (filter (bit_at bm) [32 * Suc i..<32 * (Suc i + k)])"
    using Suc.IH [of "Suc i"] Suc.prems by (simp add: algebra_simps)
  then show ?case using Suc.prems
    unfolding split by (simp add: emit_bits_eq word_offsets comp_def del: upt_Suc mult_Suc_right)
qed

lemma for_each_eq:
  "n_longs r \<le> length (bitmap r) \<Longrightarrow>
   for_each r = map (\<lambda>k. base r + int k) (filter (bit_at (bitmap r)) [0..<32 * n_longs r])"
  using for_each_loop_eq [of 0 "n_longs r" "bitmap r" "base r"]
  by (simp add: for_each_def n_longs_def)

subsection \<open>What the copy and fill loops leave at each index\<close>

lemma std_copy_length [simp]: "length (std_copy bm src dst k) = length bm"
  by (induction k arbitrary: bm src dst) auto

lemma std_copy_nth:
  "dst \<le> src \<Longrightarrow> src + k \<le> length bm \<Longrightarrow> j < length bm \<Longrightarrow>
   std_copy bm src dst k ! j = (if dst \<le> j \<and> j < dst + k then bm ! (j + (src - dst)) else bm ! j)"
proof (induction k arbitrary: bm src dst)
  case 0
  then show ?case by auto
next
  case (Suc k)
  let ?bm = "bm[dst := bm ! src]"
  have "std_copy ?bm (Suc src) (Suc dst) k ! j =
      (if Suc dst \<le> j \<and> j < Suc dst + k then ?bm ! (j + (src - dst)) else ?bm ! j)"
    using Suc.IH [of "Suc dst" "Suc src" ?bm] Suc.prems by simp
  then show ?case using Suc.prems by (auto simp add: nth_list_update)
qed

lemma std_copy_rev_length [simp]: "length (std_copy_rev bm src dst k) = length bm"
  by (induction k arbitrary: bm src dst) auto

lemma std_copy_rev_nth:
  "dst \<le> src \<Longrightarrow> src + k \<le> length bm \<Longrightarrow> j < length bm \<Longrightarrow>
   std_copy_rev bm src dst k ! j =
     (if dst \<le> length bm - 1 - j \<and> length bm - 1 - j < dst + k
      then bm ! (j + dst - src) else bm ! j)"
proof (induction k arbitrary: bm src dst)
  case 0
  then show ?case by auto
next
  case (Suc k)
  let ?bm = "bm[length bm - 1 - dst := bm ! (length bm - 1 - src)]"
  have "std_copy_rev ?bm (Suc src) (Suc dst) k ! j =
      (if Suc dst \<le> length ?bm - 1 - j \<and> length ?bm - 1 - j < Suc dst + k
       then ?bm ! (j + Suc dst - Suc src) else ?bm ! j)"
    using Suc.IH [of "Suc dst" "Suc src" ?bm] Suc.prems by simp
  then show ?case using Suc.prems by (auto simp add: nth_list_update)
qed

lemma fill_n_length [simp]: "length (fill_n bm pos k v) = length bm"
  by (induction k arbitrary: bm pos) auto

lemma fill_n_nth:
  "j < length bm \<Longrightarrow>
   fill_n bm pos k v ! j = (if pos \<le> j \<and> j < pos + k then v else bm ! j)"
  by (induction k arbitrary: bm pos) (auto simp add: nth_list_update)

lemma fill_n_rev_length [simp]: "length (fill_n_rev bm pos k v) = length bm"
  by (induction k arbitrary: bm pos) auto

lemma fill_n_rev_nth:
  "pos + k \<le> length bm \<Longrightarrow> j < length bm \<Longrightarrow>
   fill_n_rev bm pos k v ! j =
     (if pos \<le> length bm - 1 - j \<and> length bm - 1 - j < pos + k then v else bm ! j)"
  by (induction k arbitrary: bm pos) (auto simp add: nth_list_update)

lemma fill_length [simp]: "length (fill bm v) = length bm"
  by (simp add: fill_def)

lemma fill_nth [simp]: "j < length bm \<Longrightarrow> fill bm v ! j = v"
  by (simp add: fill_def)

declare shift_left_loop.simps [simp del]

lemma shift_left_loop_length [simp]:
  "length (shift_left_loop bm nb ob last_index i n) = length bm"
  by (induction bm nb ob last_index i n rule: shift_left_loop.induct)
     (subst shift_left_loop.simps, simp)

lemma shift_left_loop_nth:
  "i \<le> n \<Longrightarrow> last_index < length bm \<Longrightarrow> j < length bm \<Longrightarrow>
   shift_left_loop bm nb ob last_index i n ! j =
     (if i \<le> j \<and> j < i + (last_index - n)
      then push_bit (unat nb) (bm ! (j + (n - i))) OR drop_bit (unat ob) (bm ! (j + (n - i) + 1))
      else bm ! j)"
proof (induction bm nb ob last_index i n rule: shift_left_loop.induct)
  case (1 bm nb ob last_index i n)
  show ?case
  proof (cases "n < last_index")
    case False
    then show ?thesis by (subst shift_left_loop.simps) auto
  next
    case True
    let ?bm = "bm[i := push_bit (unat nb) (bm ! n) OR drop_bit (unat ob) (bm ! (n + 1))]"
    have "shift_left_loop ?bm nb ob last_index (Suc i) (Suc n) ! j =
      (if Suc i \<le> j \<and> j < Suc i + (last_index - Suc n)
       then push_bit (unat nb) (?bm ! (j + (n - i))) OR drop_bit (unat ob) (?bm ! (j + (n - i) + 1))
       else ?bm ! j)"
      using "1.IH" [OF True] "1.prems" by simp
    moreover have "shift_left_loop bm nb ob last_index i n =
        shift_left_loop ?bm nb ob last_index (Suc i) (Suc n)"
      using True by (subst shift_left_loop.simps) simp
    ultimately show ?thesis using "1.prems" True
      by (auto simp add: nth_list_update)
  qed
qed

lemma shift_right_loop_length [simp]:
  "length (shift_right_loop bm nb ob i n) = length bm"
  by (induction n arbitrary: bm i) auto

lemma shift_right_loop_nth:
  "n \<le> i \<Longrightarrow> i < length bm \<Longrightarrow> j < length bm \<Longrightarrow>
   shift_right_loop bm nb ob i n ! j =
     (if i - n < j \<and> j \<le> i
      then drop_bit (unat nb) (bm ! (j - (i - n))) OR push_bit (unat ob) (bm ! (j - (i - n) - 1))
      else bm ! j)"
proof (induction n arbitrary: bm i)
  case 0
  then show ?case by auto
next
  case (Suc n)
  let ?bm = "bm[i := drop_bit (unat nb) (bm ! Suc n) OR push_bit (unat ob) (bm ! n)]"
  have "shift_right_loop ?bm nb ob (i - 1) n ! j =
     (if i - 1 - n < j \<and> j \<le> i - 1
      then drop_bit (unat nb) (?bm ! (j - (i - 1 - n))) OR push_bit (unat ob) (?bm ! (j - (i - 1 - n) - 1))
      else ?bm ! j)"
    using Suc.IH [of "i - 1" ?bm] Suc.prems by simp
  then show ?case using Suc.prems
    by (auto simp add: nth_list_update Suc_diff_Suc)
qed

subsection \<open>The in-place shifts compute the reference\<close>

lemma spec_shift_left_length [simp]: "length (spec_shift_left src s) = length src"
  by (simp add: spec_shift_left_def Let_def)

lemma spec_shift_right_length [simp]: "length (spec_shift_right src s) = length src"
  by (simp add: spec_shift_right_def Let_def)

lemma unat_shift5: "unat (drop_bit 5 (n :: u32)) = unat n div 32"
  by (simp add: unat_drop_bit_eq drop_bit_eq_div unat_div)

lemma and31: "(n :: u32) AND 31 = take_bit 5 n"
proof -
  have "(31 :: u32) = mask 5" by (simp add: mask_eq_exp_minus_1)
  then show ?thesis by (simp add: take_bit_eq_mask)
qed

lemma unat_and31: "unat ((n :: u32) AND 31) = unat n mod 32"
  by (simp add: and31 unsigned_take_bit_eq take_bit_eq_mod unat_mod)

lemma and31_zero_iff: "(n :: u32) AND 31 = 0 \<longleftrightarrow> unat n mod 32 = 0"
  using unat_and31 [of n] by (metis unat_eq_0)

lemma unat_overflow_bits: "unat (32 - ((n :: u32) AND 31)) = 32 - unat n mod 32"
proof -
  have "unat ((n :: u32) AND 31) \<le> unat (32 :: u32)" by (simp add: unat_and31)
  then have "unat (32 - (n AND 31)) = unat (32 :: u32) - unat (n AND 31)"
    by (intro unat_sub) (simp add: word_le_nat_alt)
  then show ?thesis by (simp add: unat_and31)
qed

lemma shift_map_left_bitmap:
  assumes len: "length (bitmap r) = NITEMS NBITS"
    and lt: "n_bits < num_bits r"
    and nb: "unat (num_bits r) \<le> 32 * NITEMS NBITS"
  shows "bitmap (shift_map_left NBITS r n_bits) = spec_shift_left (bitmap r) (unat n_bits)"
proof -
  let ?bm = "bitmap r" and ?NW = "NITEMS NBITS"
  let ?w = "unat n_bits div 32" and ?r = "unat n_bits mod 32"
  have "unat n_bits < 32 * ?NW" using lt nb by (simp add: word_less_nat_alt)
  then have w: "?w < ?NW" by simp
  have nle: "\<not> num_bits r \<le> n_bits" using lt by simp
  show ?thesis
  proof (cases "?r = 0")
    case True
    have "bitmap (shift_map_left NBITS r n_bits) =
        fill_n_rev (std_copy ?bm ?w 0 (?NW - ?w)) 0 ?w 0"
      using nle True len by (simp add: shift_map_left_def Let_def unat_shift5 and31_zero_iff)
    also have "\<dots> = spec_shift_left ?bm (unat n_bits)"
    proof (rule nth_equalityI)
      show "length (fill_n_rev (std_copy ?bm ?w 0 (?NW - ?w)) 0 ?w 0) = length (spec_shift_left ?bm (unat n_bits))"
        by (simp add: len)
    next
      fix j assume "j < length (fill_n_rev (std_copy ?bm ?w 0 (?NW - ?w)) 0 ?w 0)"
      then have j: "j < ?NW" by (simp add: len)
      show "fill_n_rev (std_copy ?bm ?w 0 (?NW - ?w)) 0 ?w 0 ! j = spec_shift_left ?bm (unat n_bits) ! j"
        using j w True len
        by (auto simp add: fill_n_rev_nth std_copy_nth spec_shift_left_def Let_def)
    qed
    finally show ?thesis .
  next
    case False
    let ?l = "shift_left_loop ?bm (n_bits AND 31) (32 - (n_bits AND 31)) (?NW - 1) 0 ?w"
    let ?l2 = "?l[?NW - 1 - ?w := push_bit ?r (?l ! (?NW - 1))]"
    have "bitmap (shift_map_left NBITS r n_bits) = fill_n_rev ?l2 0 ?w 0"
      using nle False len by (simp add: shift_map_left_def Let_def unat_shift5 and31_zero_iff unat_and31)
    also have "\<dots> = spec_shift_left ?bm (unat n_bits)"
    proof (rule nth_equalityI)
      show "length (fill_n_rev ?l2 0 ?w 0) = length (spec_shift_left ?bm (unat n_bits))"
        by (simp add: len)
    next
      fix j assume "j < length (fill_n_rev ?l2 0 ?w 0)"
      then have j: "j < ?NW" by (simp add: len)
      have last: "?l ! (?NW - 1) = ?bm ! (?NW - 1)"
        using w len by (auto simp add: shift_left_loop_nth)
      show "fill_n_rev ?l2 0 ?w 0 ! j = spec_shift_left ?bm (unat n_bits) ! j"
        using j w False len
        by (auto simp add: fill_n_rev_nth nth_list_update last shift_left_loop_nth
            spec_shift_left_def Let_def unat_and31 unat_overflow_bits)
    qed
    finally show ?thesis .
  qed
qed

lemma shift_map_right_bitmap:
  assumes len: "length (bitmap r) = NITEMS NBITS"
    and lt: "n_bits < NBITS"
  shows "bitmap (shift_map_right NBITS r n_bits) = spec_shift_right (bitmap r) (unat n_bits)"
proof -
  let ?bm = "bitmap r" and ?NW = "NITEMS NBITS"
  let ?w = "unat n_bits div 32" and ?r = "unat n_bits mod 32"
  have "unat n_bits < unat NBITS" using lt by (simp add: word_less_nat_alt)
  then have w: "?w < ?NW" by (simp add: NITEMS_def)
  have nle: "\<not> NBITS \<le> n_bits" using lt by simp
  show ?thesis
  proof (cases "?r = 0")
    case True
    let ?c = "std_copy_rev ?bm ?w 0 (?NW - ?w)"
    have "bitmap (shift_map_right NBITS r n_bits) = fill_n ?c 0 ?w 0"
      using nle True len by (simp add: shift_map_right_def Let_def unat_shift5 and31_zero_iff)
    also have "\<dots> = spec_shift_right ?bm (unat n_bits)"
    proof (rule nth_equalityI)
      show "length (fill_n ?c 0 ?w 0) = length (spec_shift_right ?bm (unat n_bits))"
        by (simp add: len)
    next
      fix j assume "j < length (fill_n ?c 0 ?w 0)"
      then have j: "j < ?NW" by (simp add: len)
      show "fill_n ?c 0 ?w 0 ! j = spec_shift_right ?bm (unat n_bits) ! j"
        using j w True len
        by (auto simp add: fill_n_nth std_copy_rev_nth spec_shift_right_def Let_def)
    qed
    finally show ?thesis .
  next
    case False
    let ?l = "shift_right_loop ?bm (n_bits AND 31) (32 - (n_bits AND 31)) (?NW - 1) (?NW - 1 - ?w)"
    let ?l2 = "?l[?w := drop_bit ?r (?l ! 0)]"
    have "bitmap (shift_map_right NBITS r n_bits) = fill_n ?l2 0 ?w 0"
      using nle False len by (simp add: shift_map_right_def Let_def unat_shift5 and31_zero_iff unat_and31)
    also have "\<dots> = spec_shift_right ?bm (unat n_bits)"
    proof (rule nth_equalityI)
      show "length (fill_n ?l2 0 ?w 0) = length (spec_shift_right ?bm (unat n_bits))"
        by (simp add: len)
    next
      fix j assume "j < length (fill_n ?l2 0 ?w 0)"
      then have j: "j < ?NW" by (simp add: len)
      have first: "?l ! 0 = ?bm ! 0"
        using w len by (auto simp add: shift_right_loop_nth)
      have off: "?NW - 1 - (?NW - 1 - ?w) = ?w" using w by simp
      show "fill_n ?l2 0 ?w 0 ! j = spec_shift_right ?bm (unat n_bits) ! j"
        using j w False len
        by (auto simp add: fill_n_nth nth_list_update first shift_right_loop_nth off
            spec_shift_right_def Let_def unat_and31 unat_overflow_bits)
    qed
    finally show ?thesis .
  qed
qed

subsection \<open>The shifts, bit by bit\<close>

lemma bit_at_split:
  "j < 32 \<Longrightarrow> bit_at bm (32 * d + j) \<longleftrightarrow> d < length bm \<and> bit (bm ! d) (31 - j)"
  by (simp add: bit_at_def)

lemma bit_at_bound: "bit_at bm k \<Longrightarrow> k < 32 * length bm"
  by (auto simp add: bit_at_def)

lemma bit_at_carry:
  "j < 32 \<Longrightarrow> r < 32 \<Longrightarrow> 32 \<le> j + r \<Longrightarrow>
   bit_at bm (32 * d + (j + r)) \<longleftrightarrow> Suc d < length bm \<and> bit (bm ! Suc d) (63 - (j + r))"
proof -
  assume a: "j < 32" "r < 32" "32 \<le> j + r"
  then have "32 * d + (j + r) = 32 * Suc d + (j + r - 32)" by simp
  moreover have "j + r - 32 < 32" using a by simp
  ultimately have "bit_at bm (32 * d + (j + r)) \<longleftrightarrow>
      Suc d < length bm \<and> bit (bm ! Suc d) (31 - (j + r - 32))"
    using bit_at_split [of "j + r - 32" bm "Suc d"] by simp
  moreover have "31 - (j + r - 32) = 63 - (j + r)" using a by simp
  ultimately show ?thesis by simp
qed

lemma bit_at_spec_shift_left_aux:
  assumes j: "j < 32" and r: "r < 32" and w: "w < length src"
  shows "bit_at (spec_shift_left src (32 * w + r)) (32 * d + j)
           \<longleftrightarrow> bit_at src (32 * (d + w) + (j + r))"
proof (cases "d < length src")
  case False
  then have "\<not> bit_at src (32 * (d + w) + (j + r))"
    by (auto dest: bit_at_bound)
  moreover have "\<not> bit_at (spec_shift_left src (32 * w + r)) (32 * d + j)"
    using False j by (simp add: bit_at_split)
  ultimately show ?thesis by simp
next
  case d: True
  have s: "(32 * w + r) div 32 = w" "(32 * w + r) mod 32 = r" using r by simp_all
  have lhs: "bit_at (spec_shift_left src (32 * w + r)) (32 * d + j)
      \<longleftrightarrow> bit (spec_shift_left src (32 * w + r) ! d) (31 - j)"
    using bit_at_split [OF j, of "spec_shift_left src (32 * w + r)" d] d by simp
  show ?thesis
  proof (cases "j + r < 32")
    case True
    have rhs: "bit_at src (32 * (d + w) + (j + r))
        \<longleftrightarrow> d + w < length src \<and> bit (src ! (d + w)) (31 - (j + r))"
      by (rule bit_at_split [OF True])
    show ?thesis unfolding lhs rhs using True j r w d
      by (auto simp add: spec_shift_left_def Let_def s bit_simps dest: bit_imp_le_length)
  next
    case False
    then have c: "32 \<le> j + r" by simp
    have rhs: "bit_at src (32 * (d + w) + (j + r))
        \<longleftrightarrow> Suc (d + w) < length src \<and> bit (src ! Suc (d + w)) (63 - (j + r))"
      by (rule bit_at_carry [OF j r c])
    have e: "32 - r + (31 - j) = 63 - (j + r)" using j r by simp
    show ?thesis unfolding lhs rhs using False j r w d
      by (auto simp add: spec_shift_left_def Let_def s bit_simps e dest: bit_imp_le_length)
  qed
qed

lemma bit_at_spec_shift_left:
  assumes "s div 32 < length src"
  shows "bit_at (spec_shift_left src s) k \<longleftrightarrow> bit_at src (k + s)"
proof -
  have "bit_at (spec_shift_left src (32 * (s div 32) + s mod 32)) (32 * (k div 32) + k mod 32)
      \<longleftrightarrow> bit_at src (32 * (k div 32 + s div 32) + (k mod 32 + s mod 32))"
    using assms by (intro bit_at_spec_shift_left_aux) simp_all
  moreover have "32 * (k div 32 + s div 32) + (k mod 32 + s mod 32) = k + s"
    by (simp add: algebra_simps)
  ultimately show ?thesis by (simp add: add.commute)
qed

lemma bit_at_spec_shift_right_aux:
  assumes j: "j < 32" and r: "r < 32" and w: "w < length src"
  shows "bit_at (spec_shift_right src (32 * w + r)) (32 * d + j)
           \<longleftrightarrow> d < length src \<and>
               (if r \<le> j then w \<le> d \<and> bit (src ! (d - w)) (31 - (j - r))
                else w < d \<and> bit (src ! (d - w - 1)) (r - 1 - j))"
proof (cases "d < length src")
  case False
  then show ?thesis using j by (simp add: bit_at_split)
next
  case d: True
  have s: "(32 * w + r) div 32 = w" "(32 * w + r) mod 32 = r" using r by simp_all
  have lhs: "bit_at (spec_shift_right src (32 * w + r)) (32 * d + j)
      \<longleftrightarrow> bit (spec_shift_right src (32 * w + r) ! d) (31 - j)"
    using bit_at_split [OF j, of "spec_shift_right src (32 * w + r)" d] d by simp
  show ?thesis
  proof (cases "r \<le> j")
    case True
    have e: "r + (31 - j) = 31 - (j - r)" using j True by simp
    show ?thesis unfolding lhs using True j r w d
      by (auto simp add: spec_shift_right_def Let_def s bit_simps e dest: bit_imp_le_length)
  next
    case False
    have e: "31 - j - (32 - r) = r - 1 - j" using j r False by simp
    show ?thesis unfolding lhs using False j r w d
      by (auto simp add: spec_shift_right_def Let_def s bit_simps e dest: bit_imp_le_length)
  qed
qed

lemma bit_at_spec_shift_right:
  assumes "s div 32 < length src"
  shows "bit_at (spec_shift_right src s) k
           \<longleftrightarrow> k < 32 * length src \<and> s \<le> k \<and> bit_at src (k - s)"
proof -
  define d j w r where "d = k div 32" and "j = k mod 32" and "w = s div 32" and "r = s mod 32"
  have k: "k = 32 * d + j" and s: "s = 32 * w + r" and j: "j < 32" and r: "r < 32"
    by (simp_all add: d_def j_def w_def r_def)
  have w: "w < length src" using assms by (simp add: w_def)
  have aux: "bit_at (spec_shift_right src s) k
           \<longleftrightarrow> d < length src \<and>
               (if r \<le> j then w \<le> d \<and> bit (src ! (d - w)) (31 - (j - r))
                else w < d \<and> bit (src ! (d - w - 1)) (r - 1 - j))"
    unfolding k s by (rule bit_at_spec_shift_right_aux [OF j r w])
  have bound: "k < 32 * length src \<longleftrightarrow> d < length src" using j by (auto simp add: k)
  show ?thesis
  proof (cases "r \<le> j")
    case True
    have le: "s \<le> k \<longleftrightarrow> w \<le> d" using True j r by (auto simp add: k s)
    have "bit_at src (k - s) \<longleftrightarrow> d - w < length src \<and> bit (src ! (d - w)) (31 - (j - r))"
      if "w \<le> d"
    proof -
      have "k - s = 32 * (d - w) + (j - r)" using that True by (simp add: k s algebra_simps)
      moreover have "j - r < 32" using j by simp
      ultimately show ?thesis using bit_at_split [of "j - r" src "d - w"] by simp
    qed
    then show ?thesis unfolding aux bound le using True by auto
  next
    case False
    have le: "s \<le> k \<longleftrightarrow> w < d" using False j r by (auto simp add: k s)
    have "bit_at src (k - s) \<longleftrightarrow> d - w - 1 < length src \<and> bit (src ! (d - w - 1)) (r - 1 - j)"
      if "w < d"
    proof -
      have "k - s = 32 * (d - w - 1) + (32 + j - r)"
        using that False r by (simp add: k s algebra_simps)
      moreover have "32 + j - r < 32" using j False by simp
      moreover have "31 - (32 + j - r) = r - 1 - j" using j r False by simp
      ultimately show ?thesis using bit_at_split [of "32 + j - r" src "d - w - 1"] by simp
    qed
    then show ?thesis unfolding aux bound le using False by auto
  qed
qed

subsection \<open>The scan for the new watermark\<close>

lemma dec_div:
  fixes n m :: nat
  assumes "n mod m \<noteq> 0"
  shows "(n - 1) div m = n div m"
proof (cases "m = 0")
  case True
  then show ?thesis by simp
next
  case False
  then have m: "0 < m" by simp
  define q t where "q = n div m" and "t = n mod m"
  have n: "n = t + q * m" by (simp add: q_def t_def)
  have t: "0 < t" using assms by (simp add: t_def)
  have tm: "t < m" using m by (simp add: t_def)
  have "n - 1 = (t - 1) + q * m" using n t by simp
  then have "(n - 1) div m = (t - 1) div m + q" using m by simp
  also have "(t - 1) div m = 0" using tm by simp
  finally show ?thesis by (simp add: q_def)
qed

lemma mod_pos_of_bit:
  fixes n :: nat
  assumes "bit n q" "q < p"
  shows "n mod 2 ^ p \<noteq> 0"
proof
  assume "n mod 2 ^ p = 0"
  then have "take_bit p n = 0" by (simp add: take_bit_eq_mod)
  then have "\<not> bit (take_bit p n) q" by simp
  with assms show False by (simp add: bit_take_bit_iff)
qed

lemma dec_keeps_high_bits:
  fixes w :: u32
  assumes "bit w q" "q < p"
  shows "bit (w - 1) p \<longleftrightarrow> bit w p"
proof -
  have nz: "w \<noteq> 0" using assms(1) by auto
  have q: "bit (unat w) q" using assms(1) by (simp add: bit_unsigned_iff)
  have "bit (w - 1) p \<longleftrightarrow> bit (unat (w - 1)) p" by (simp add: bit_unsigned_iff)
  also have "\<dots> \<longleftrightarrow> bit (unat w - 1) p" using nz by (simp add: unat_minus_one)
  also have "\<dots> \<longleftrightarrow> odd ((unat w - 1) div 2 ^ p)" by (simp add: bit_iff_odd)
  also have "(unat w - 1) div 2 ^ p = unat w div 2 ^ p"
    by (rule dec_div) (rule mod_pos_of_bit [OF q assms(2)])
  also have "odd (unat w div 2 ^ p) \<longleftrightarrow> bit (unat w) p" by (simp add: bit_iff_odd)
  also have "\<dots> \<longleftrightarrow> bit w p" by (simp add: bit_unsigned_iff)
  finally show ?thesis .
qed

lemma lowest_bit_isolated:
  fixes w :: u32
  assumes "bit (w AND NOT (w - 1)) p" "q < p"
  shows "\<not> bit w q"
proof
  assume "bit w q"
  from dec_keeps_high_bits [OF this assms(2)] assms(1) show False
    by (auto simp add: bit_simps)
qed

lemma isolated_nonzero:
  fixes w :: u32
  assumes "w \<noteq> 0"
  shows "w AND NOT (w - 1) \<noteq> 0"
proof -
  from assms obtain n where n: "bit w n" by (auto simp add: bit_eq_iff)
  define m where "m = (LEAST n. bit w n)"
  have m: "bit w m" unfolding m_def using n by (rule LeastI)
  have least: "\<not> bit w k" if "k < m" for k using that not_less_Least unfolding m_def by blast
  have m32: "m < 32" using m by (auto dest: bit_imp_le_length)
  have "\<not> bit (w - 1) m"
  proof
    assume "bit (w - 1) m"
    have "bit (unat (w - 1)) m" using \<open>bit (w - 1) m\<close> by (simp add: bit_unsigned_iff)
    then have dec: "bit (unat w - 1) m" using assms by (simp add: unat_minus_one)
    have "take_bit m (unat w) = 0"
      by (rule bit_eqI) (use least in \<open>auto simp add: bit_take_bit_iff bit_unsigned_iff\<close>)
    then obtain c where c: "unat w = c * 2 ^ m"
      by (metis take_bit_eq_mod mod_eq_0_iff_dvd dvd_def mult.commute)
    have "bit (unat w) m" using m by (simp add: bit_unsigned_iff)
    then have "odd c" by (simp add: bit_iff_odd c)
    then obtain e where e: "c = 2 * e + 1" by (auto elim: oddE)
    define t :: nat where "t = 2 ^ m"
    have t: "0 < t" by (simp add: t_def)
    have "unat w - 1 = (t - 1) + (2 * e) * t" using t by (simp add: c e t_def algebra_simps)
    then have "(unat w - 1) div t = ((t - 1) + (2 * e) * t) div t" by simp
    also have "\<dots> = 2 * e + (t - 1) div t"
      using t by (intro div_mult_self1) simp
    also have "(t - 1) div t = 0" using t by simp
    finally have "even ((unat w - 1) div 2 ^ m)" by (simp add: t_def)
    with dec show False by (simp add: bit_iff_odd)
  qed
  with m m32 have "bit (w AND NOT (w - 1)) m" by (simp add: bit_simps)
  then show ?thesis by auto
qed

lemma unat_find_result:
  assumes "c < 32" "32 * i + 32 < 2 ^ 32"
  shows "unat (push_bit 5 (word_of_nat i :: u32) + (word_of_nat c + 1)) = 32 * i + c + 1"
proof -
  have e: "word_of_nat (32 * i + c + 1) = push_bit 5 (word_of_nat i :: u32) + (word_of_nat c + 1)"
    by (simp add: push_bit_eq_mult)
  show ?thesis by (rule of_nat_inverse [OF e]) (use assms in simp)
qed

lemma find_new_max_above:
  assumes "i \<le> length bm" "32 * i < 2 ^ 32"
    and "unat (find_new_max bm n i) \<le> k" "32 * n \<le> k" "k < 32 * i"
  shows "\<not> bit_at bm k"
  using assms
proof (induction i)
  case 0
  then show ?case by simp
next
  case (Suc i)
  show ?case
  proof (cases "Suc i > n")
    case False
    with Suc.prems show ?thesis by simp
  next
    case True
    show ?thesis
    proof (cases "bm ! i = 0")
      case z: True
      have r: "find_new_max bm n (Suc i) = find_new_max bm n i" using True z by simp
      show ?thesis
      proof (cases "k < 32 * i")
        case True
        with Suc r show ?thesis by simp
      next
        case False
        then have "k div 32 = i" using Suc.prems by simp
        then show ?thesis using z by (simp add: bit_at_def)
      qed
    next
      case nz: False
      define bits' where "bits' = bm ! i AND NOT (bm ! i - 1)"
      define c where "c = builtin_clz bits'"
      have nz': "bits' \<noteq> 0" using nz by (simp add: bits'_def isolated_nonzero)
      have c32: "c < 32" and hit: "bit bits' (31 - c)"
        using builtin_clz_less [OF nz'] builtin_clz_bit [OF nz'] by (simp_all add: c_def)
      have "find_new_max bm n (Suc i) = push_bit 5 (word_of_nat i) + (word_of_nat c + 1)"
        using True nz by (simp add: Let_def bits'_def c_def)
      then have r: "unat (find_new_max bm n (Suc i)) = 32 * i + c + 1"
        using unat_find_result [OF c32, of i] Suc.prems by simp
      have ge: "32 * i + c + 1 \<le> k" using Suc.prems(3) unfolding r .
      have lt: "k < 32 * i + 32" using Suc.prems(5) by simp
      have kd: "k div 32 = i" using ge lt by simp
      have "k mod 32 = k - 32 * i" using kd minus_div_mult_eq_mod [of k 32] by simp
      then have kj: "c < k mod 32" using ge by simp
      have "31 - k mod 32 < 31 - c" using kj c32 by simp
      from lowest_bit_isolated [OF hit [unfolded bits'_def] this]
      show ?thesis by (simp add: bit_at_def kd)
    qed
  qed
qed

lemma find_new_max_le:
  assumes "32 * i < 2 ^ 32"
  shows "unat (find_new_max bm n i) \<le> 32 * i"
  using assms
proof (induction i)
  case 0
  then show ?case by simp
next
  case (Suc i)
  show ?case
  proof (cases "Suc i > n \<and> bm ! i \<noteq> 0")
    case True
    define c where "c = builtin_clz (bm ! i AND NOT (bm ! i - 1))"
    have c32: "c < 32" using True builtin_clz_less [OF isolated_nonzero] by (simp add: c_def)
    have "find_new_max bm n (Suc i) = push_bit 5 (word_of_nat i) + (word_of_nat c + 1)"
      using True by (simp add: Let_def c_def)
    then show ?thesis using unat_find_result [OF c32, of i] Suc.prems c32 by simp
  next
    case False
    then have "find_new_max bm n (Suc i) = 0 \<or> find_new_max bm n (Suc i) = find_new_max bm n i"
      by auto
    with Suc show ?thesis by auto
  qed
qed

subsection \<open>Sizes, differences and the effect of \<open>add\<close>\<close>

lemma valid_NBITS_unat: "valid_NBITS N \<Longrightarrow> 0 < unat N \<and> unat N \<le> 2 ^ 30"
  by (simp add: valid_NBITS_def word_less_nat_alt word_le_nat_alt)

lemma NITEMS_bounds:
  assumes "valid_NBITS N"
  shows "0 < NITEMS N" "unat N \<le> 32 * NITEMS N" "32 * NITEMS N < unat N + 32"
    "32 * NITEMS N + 32 < 2 ^ 32"
proof -
  from valid_NBITS_unat [OF assms] have n: "0 < unat N" "unat N \<le> 2 ^ 30" by simp_all
  define q where "q = (unat N + 31) div 32"
  have q: "32 * q \<le> unat N + 31" "unat N + 31 < 32 * q + 32"
    unfolding q_def by (simp_all add: algebra_simps) 
  show "0 < NITEMS N" "unat N \<le> 32 * NITEMS N" "32 * NITEMS N < unat N + 32"
    "32 * NITEMS N + 32 < 2 ^ 32"
    unfolding NITEMS_def q_def [symmetric] using n q by simp_all
qed

lemma uint_pred: "0 < (N :: u32) \<Longrightarrow> uint (N - 1) = int (unat N) - 1"
proof -
  assume "0 < N"
  then have "N \<noteq> 0" by auto
  then have "unat (N - 1) = unat N - 1" by (rule unat_minus_one)
  moreover have "0 < unat N" using \<open>0 < N\<close> by (simp add: word_less_nat_alt)
  ultimately have "int (unat (N - 1)) = int (unat N) - 1" by simp
  then show ?thesis by (simp only: uint_nat)
qed

lemma unat_d_func:
  assumes "0 \<le> a - b" "a - b < 2 ^ 32"
  shows "unat (d_func a b) = nat (a - b)"
proof -
  have "(a - b) mod 2 ^ 32 = a - b" using assms by simp
  then have "uint (word_of_int (a - b) :: u32) = a - b"
    by (simp only: uint_word_of_int) simp
  then show ?thesis by (simp add: d_func_def unat_eq_nat_uint)
qed

lemma bit_at_replicate_zero [simp]: "\<not> bit_at (replicate n 0) k"
  by (simp add: bit_at_def)

lemma bit_at_fill_zero [simp]: "\<not> bit_at (fill bm 0) k"
  by (simp add: bit_at_def)

lemma well_formed_BitmapRange: "well_formed N (BitmapRange N b)"
  by (simp add: well_formed_def BitmapRange_def)

lemma watermark_bound_BitmapRange: "watermark_bound (BitmapRange N b)"
  by (simp add: watermark_bound_def BitmapRange_def)

lemma well_formed_set_base: "well_formed N r \<Longrightarrow> well_formed N (set_base N r b)"
  by (simp add: well_formed_def set_base_def)

lemma watermark_bound_set_base: "watermark_bound (set_base N r b)"
  by (simp add: watermark_bound_def set_base_def)

lemma NITEMS_covers: "unat N \<le> 32 * NITEMS N"
proof -
  define q where "q = (unat N + 31) div 32"
  have "unat N + 31 < 32 * q + 32" unfolding q_def by (simp add: algebra_simps)
  then show ?thesis unfolding NITEMS_def q_def [symmetric] by simp
qed

lemma unat_max: "unat (max a b) = max (unat a) (unat b)" for a b :: u32
  by (simp add: max_def word_le_nat_alt)

lemma unat_min: "unat (min a b) = min (unat a) (unat b)" for a b :: u32
  by (simp add: min_def word_le_nat_alt)

lemma bit_at_set_bit:
  assumes "d div 32 < length bm"
  shows "bit_at (bm[d div 32 := (bm ! (d div 32)) OR push_bit (31 - d mod 32) 1]) k
           \<longleftrightarrow> k = d \<or> bit_at bm k"
proof (cases "k div 32 = d div 32")
  case True
  have "k = d \<longleftrightarrow> k mod 32 = d mod 32"
    using True by (metis div_mult_mod_eq)
  moreover have "31 - a = 31 - c \<longleftrightarrow> c = a" if "a < 32" "c < 32" for a c :: nat
    using that by auto
  then have "31 - d mod 32 = 31 - k mod 32 \<longleftrightarrow> k mod 32 = d mod 32" by simp
  ultimately show ?thesis using True assms
    by (auto simp add: bit_at_def bit_simps)
next
  case False
  then have "k \<noteq> d" by auto
  with False show ?thesis by (simp add: bit_at_def)
qed

lemma add_in_window:
  assumes wf: "well_formed N r" and N: "0 < N" and lo: "base r \<le> x" and hi: "x \<le> range_max r"
  defines "d \<equiv> nat (x - base r)"
  shows "fst (add r x)"
    and "base (snd (add r x)) = base r"
    and "range_max (snd (add r x)) = range_max r"
    and "length (bitmap (snd (add r x))) = length (bitmap r)"
    and "unat (num_bits (snd (add r x))) = max (d + 1) (unat (num_bits r))"
    and "bit_at (bitmap (snd (add r x))) k \<longleftrightarrow> k = d \<or> bit_at (bitmap r) k"
    and "d < unat N"
proof -
  have rm: "range_max r = base r + int (unat N) - 1"
    using wf uint_pred [OF N] by (simp add: well_formed_def)
  have len: "length (bitmap r) = NITEMS N" using wf by (simp add: well_formed_def)
  have "x - base r < int (unat N)" using hi rm by simp
  then show dN: "d < unat N" using lo by (simp add: d_def nat_less_iff)
  have "unat N < 2 ^ 32" using unsigned_less [of N, where 'a = nat] by simp
  have "uint N < 2 ^ 32" using uint_lt2p [of N] by simp
  then have small: "x - base r < 2 ^ 32" using hi rm by simp
  have ud: "unat (d_func x (base r)) = d"
    using unat_d_func [of x "base r"] lo small by (simp add: d_def)
  have "unat (d_func x (base r)) + unat (1 :: u32) < 2 ^ LENGTH(32)"
    using dN \<open>unat N < 2 ^ 32\<close> by (simp add: ud)
  then have "unat (d_func x (base r) + 1) = unat (d_func x (base r)) + unat (1 :: u32)"
    by (simp only: unat_add_lem)
  then have ud1: "unat (d_func x (base r) + 1) = d + 1" by (simp add: ud)
  have pos: "d div 32 < length (bitmap r)"
    using dN NITEMS_covers [of N] len by simp
  show "fst (add r x)" using lo hi by (simp add: add_def Let_def)
  show "base (snd (add r x)) = base r" by (simp add: add_def Let_def)
  show "range_max (snd (add r x)) = range_max r" by (simp add: add_def Let_def)
  show "length (bitmap (snd (add r x))) = length (bitmap r)" by (simp add: add_def Let_def)
  show "unat (num_bits (snd (add r x))) = max (d + 1) (unat (num_bits r))"
    using lo hi by (simp add: add_def Let_def unat_max ud1)
  have "bitmap (snd (add r x)) =
      (bitmap r)[d div 32 := (bitmap r ! (d div 32)) OR push_bit (31 - d mod 32) 1]"
    using lo hi by (simp add: add_def Let_def unat_shift5 unat_and31 ud)
  then show "bit_at (bitmap (snd (add r x))) k \<longleftrightarrow> k = d \<or> bit_at (bitmap r) k"
    using bit_at_set_bit [OF pos] by simp
qed

lemma add_out_of_window:
  "\<not> (base r \<le> x \<and> x \<le> range_max r) \<Longrightarrow> add r x = (False, r)"
  by (auto simp add: add_def)

lemma well_formed_add:
  assumes "well_formed N r" "0 < N"
  shows "well_formed N (snd (add r x))"
proof (cases "base r \<le> x \<and> x \<le> range_max r")
  case True
  then have w: "base r \<le> x" "x \<le> range_max r" by simp_all
  note a = add_in_window [OF assms w]
  have "nat (x - base r) + 1 \<le> 32 * NITEMS N"
    using a(7) NITEMS_covers [of N] by simp
  then show ?thesis using assms(1) a(2-5) by (simp add: well_formed_def)
next
  case False
  then show ?thesis using assms by (simp add: add_out_of_window)
qed

lemma watermark_bound_add:
  assumes "well_formed N r" "0 < N" "watermark_bound r"
  shows "watermark_bound (snd (add r x))"
proof (cases "base r \<le> x \<and> x \<le> range_max r")
  case True
  then have w: "base r \<le> x" "x \<le> range_max r" by simp_all
  note a = add_in_window [OF assms(1,2) w]
  show ?thesis using assms(3) unfolding watermark_bound_def a(5,6) by auto
next
  case False
  then show ?thesis using assms by (simp add: add_out_of_window)
qed

subsection \<open>What the enumeration holds\<close>

lemma n_longs_le:
  assumes "unat (num_bits r) \<le> 32 * length (bitmap r)"
  shows "n_longs r \<le> length (bitmap r)"
proof -
  have "(unat (num_bits r) + 31) div 32 \<le> (32 * length (bitmap r) + 31) div 32"
    using assms by (intro div_le_mono) simp
  then show ?thesis by (simp add: n_longs_def)
qed

lemma n_longs_covers: "unat (num_bits r) \<le> 32 * n_longs r"
proof -
  define q where "q = (unat (num_bits r) + 31) div 32"
  have "unat (num_bits r) + 31 < 32 * q + 32" unfolding q_def by (simp add: algebra_simps)
  then show ?thesis unfolding n_longs_def q_def [symmetric] by simp
qed

lemma for_each_sorted:
  assumes "n_longs r \<le> length (bitmap r)"
  shows "sorted_wrt (<) (for_each r)"
proof -
  have "sorted_wrt (<) (filter (bit_at (bitmap r)) [0..<32 * n_longs r])"
    by (intro sorted_wrt_filter) simp
  then show ?thesis
    by (simp add: for_each_eq [OF assms] sorted_wrt_map)
qed

lemma for_each_set:
  assumes "n_longs r \<le> length (bitmap r)"
  shows "set (for_each r) = {base r + int k | k. k < 32 * n_longs r \<and> bit_at (bitmap r) k}"
  by (auto simp add: for_each_eq [OF assms])

lemma for_each_set_below_watermark:
  assumes "well_formed N r" "watermark_bound r"
  shows "set (for_each r) = {base r + int k | k. bit_at (bitmap r) k}"
proof -
  have "n_longs r \<le> length (bitmap r)"
    using assms(1) by (intro n_longs_le) (simp add: well_formed_def)
  moreover have "k < 32 * n_longs r" if "bit_at (bitmap r) k" for k
    using that assms(2) n_longs_covers [of r] by (auto simp add: watermark_bound_def)
  ultimately show ?thesis by (auto simp add: for_each_set)
qed

lemma add_all_Cons: "add_all r (x # xs) = add_all (snd (add r x)) xs"
  by (simp add: add_all_def)

lemma add_all_Nil [simp]: "add_all r [] = r"
  by (simp add: add_all_def)

lemma add_all_in_window:
  assumes "0 < N"
  shows "well_formed N r \<Longrightarrow> watermark_bound r \<Longrightarrow>
    \<forall>x\<in>set xs. base r \<le> x \<and> x \<le> range_max r \<Longrightarrow>
    well_formed N (add_all r xs) \<and> watermark_bound (add_all r xs)
    \<and> base (add_all r xs) = base r
    \<and> {k. bit_at (bitmap (add_all r xs)) k}
        = {k. bit_at (bitmap r) k} \<union> (\<lambda>x. nat (x - base r)) ` set xs"
proof (induction xs arbitrary: r)
  case Nil
  then show ?case by simp
next
  case (Cons x xs)
  let ?r = "snd (add r x)"
  have w: "base r \<le> x" "x \<le> range_max r" using Cons.prems(3) by simp_all
  note a = add_in_window [OF Cons.prems(1) assms w]
  have wf: "well_formed N ?r" by (rule well_formed_add [OF Cons.prems(1) assms])
  have wm: "watermark_bound ?r" by (rule watermark_bound_add [OF Cons.prems(1) assms Cons.prems(2)])
  have win: "\<forall>y\<in>set xs. base ?r \<le> y \<and> y \<le> range_max ?r"
    using Cons.prems(3) a(2,3) by simp
  from Cons.IH [OF wf wm win] a(2) a(6) show ?case
    by (auto simp add: add_all_Cons)
qed

subsection \<open>The window bound is kept by every operation\<close>

lemma reachable_add_all: "reachable tidy N r \<Longrightarrow> reachable tidy N (add_all r xs)"
  by (induction xs arbitrary: r) (simp_all add: add_all_Cons after_add)

lemma reachable_range_max:
  "reachable tidy N r \<Longrightarrow> range_max r = base r + uint (N - 1)"
proof (induction rule: reachable.induct)
  case (constructed b)
  then show ?case by (simp add: BitmapRange_def)
next
  case (after_set_base r b)
  then show ?case by (simp add: set_base_def)
next
  case (after_base_update r b)
  then show ?case by (simp add: base_update_def Let_def)
next
  case (after_add r x)
  then show ?case by (simp add: add_def Let_def)
next
  case (after_bitmap_set r nbits ws)
  then show ?case by (simp add: bitmap_set_def Let_def)
qed

subsection \<open>The effect of \<open>bitmap_set\<close>\<close>

lemma fill_replicate: "fill bm v = replicate (length bm) v"
  by (simp add: fill_def map_replicate_const)

lemma words_used_le: "(unat (min nb N) + 31) div 32 \<le> NITEMS N"
  unfolding NITEMS_def by (intro div_le_mono) (simp add: unat_min)

lemma unat_num_bytes:
  "unat (word_of_nat (((unat (x :: u32) + 31) div 32) * 4) :: u32) = ((unat x + 31) div 32) * 4"
proof -
  have "unat x < 2 ^ 32" using unsigned_less [of x, where 'a = nat] by simp
  then have "(unat x + 31) div 32 \<le> (2 ^ 32 + 31) div 32" by (intro div_le_mono) simp
  then have "((unat x + 31) div 32) * 4 < 2 ^ 32" by simp
  then show ?thesis by (intro of_nat_inverse [OF refl]) simp
qed

lemma bitmap_set_effect:
  assumes "length (bitmap r) = NITEMS N"
  shows "num_bits (bitmap_set N r nb ws) = min nb N"
    and "bitmap (bitmap_set N r nb ws) =
           take ((unat (min nb N) + 31) div 32) ws
           @ replicate (NITEMS N - (unat (min nb N) + 31) div 32) 0"
    and "base (bitmap_set N r nb ws) = base r"
    and "range_max (bitmap_set N r nb ws) = range_max r"
  using assms
  by (simp_all add: bitmap_set_def Let_def memcpy_def unat_num_bytes fill_replicate
      del: of_nat_mult)

lemma bit_at_append_take:
  assumes "k < 32 * n" "n \<le> length ws"
  shows "bit_at (take n ws @ zs) k \<longleftrightarrow> bit_at ws k"
proof -
  have i: "k div 32 < n" using assms(1) by simp
  then have "(take n ws @ zs) ! (k div 32) = ws ! (k div 32)"
    using assms(2) by (simp add: nth_append)
  then show ?thesis using i assms(2) by (simp add: bit_at_def)
qed

lemma bit_at_append_zeros:
  "bit_at (xs @ replicate m 0) k \<longleftrightarrow> bit_at xs k"
  by (auto simp add: bit_at_def nth_append)

lemma well_formed_bitmap_set:
  assumes "well_formed N r" "(unat (min nb N) + 31) div 32 \<le> length ws"
  shows "well_formed N (bitmap_set N r nb ws)"
proof -
  have len: "length (bitmap r) = NITEMS N" using assms(1) by (simp add: well_formed_def)
  note e = bitmap_set_effect [OF len, of nb ws]
  have "unat (min nb N) \<le> 32 * NITEMS N"
    using NITEMS_covers [of N] by (simp add: unat_min)
  then show ?thesis
    using assms words_used_le [of nb N] unfolding well_formed_def e by simp
qed

lemma watermark_bound_bitmap_set:
  assumes "well_formed N r" "tidy_input N nb ws"
  shows "watermark_bound (bitmap_set N r nb ws)"
proof -
  have len: "length (bitmap r) = NITEMS N" using assms(1) by (simp add: well_formed_def)
  note e = bitmap_set_effect [OF len, of nb ws]
  show ?thesis
    using assms(2) unfolding watermark_bound_def e tidy_input_def bit_at_append_zeros by simp
qed

subsection \<open>The effect of the two shifts on bits and watermark\<close>

lemma shift_map_left_cleared:
  "num_bits r \<le> n \<Longrightarrow>
   shift_map_left N r n = r\<lparr>num_bits := 0, bitmap := fill (bitmap r) 0\<rparr>"
  by (simp add: shift_map_left_def)

lemma shift_map_left_num_bits:
  "n < num_bits r \<Longrightarrow> num_bits (shift_map_left N r n) = num_bits r - n"
  by (simp add: shift_map_left_def Let_def not_le [symmetric])

lemma shift_map_left_fields [simp]:
  "base (shift_map_left N r n) = base r"
  "range_max (shift_map_left N r n) = range_max r"
  by (simp_all add: shift_map_left_def Let_def)

lemma shift_map_right_fields [simp]:
  "base (shift_map_right N r n) = base r"
  "range_max (shift_map_right N r n) = range_max r"
  by (simp_all add: shift_map_right_def Let_def)

lemma shift_map_left_bits:
  assumes "well_formed N r" "watermark_bound r"
  shows "bit_at (bitmap (shift_map_left N r n)) k \<longleftrightarrow> bit_at (bitmap r) (k + unat n)"
proof (cases "n < num_bits r")
  case True
  have len: "length (bitmap r) = NITEMS N" and nb: "unat (num_bits r) \<le> 32 * NITEMS N"
    using assms(1) by (simp_all add: well_formed_def)
  have "unat n < 32 * length (bitmap r)" using True nb len by (simp add: word_less_nat_alt)
  then have "unat n div 32 < length (bitmap r)" by simp
  then show ?thesis
    by (simp add: shift_map_left_bitmap [OF len True nb] bit_at_spec_shift_left)
next
  case False
  then have c: "num_bits r \<le> n" by simp
  then have "\<not> k + unat n < unat (num_bits r)" by (simp add: word_le_nat_alt)
  then have "\<not> bit_at (bitmap r) (k + unat n)"
    using assms(2) by (auto simp add: watermark_bound_def)
  then show ?thesis by (simp add: shift_map_left_cleared [OF c])
qed

lemma shift_map_left_watermark:
  "unat (num_bits (shift_map_left N r n)) = unat (num_bits r) - unat n"
proof (cases "n < num_bits r")
  case True
  then have "n \<le> num_bits r" by simp
  then show ?thesis by (simp add: shift_map_left_num_bits [OF True] unat_sub)
next
  case False
  then have c: "num_bits r \<le> n" by simp
  then show ?thesis by (simp add: shift_map_left_cleared [OF c] word_le_nat_alt)
qed

lemma shift_map_left_length:
  assumes "well_formed N r"
  shows "length (bitmap (shift_map_left N r n)) = length (bitmap r)"
proof (cases "n < num_bits r")
  case True
  have len: "length (bitmap r) = NITEMS N" and nb: "unat (num_bits r) \<le> 32 * NITEMS N"
    using assms(1) by (simp_all add: well_formed_def)
  show ?thesis by (simp add: shift_map_left_bitmap [OF len True nb])
next
  case False
  then have c: "num_bits r \<le> n" by simp
  show ?thesis by (simp add: shift_map_left_cleared [OF c])
qed

lemma well_formed_shift_map_left:
  assumes "well_formed N r"
  shows "well_formed N (shift_map_left N r n)"
  using assms shift_map_left_length [OF assms, of n] shift_map_left_watermark [of N r n]
  by (auto simp add: well_formed_def)

lemma watermark_bound_shift_map_left:
  assumes "well_formed N r" "watermark_bound r"
  shows "watermark_bound (shift_map_left N r n)"
  unfolding watermark_bound_def shift_map_left_bits [OF assms] shift_map_left_watermark
  using assms(2) by (auto simp add: watermark_bound_def less_diff_conv)

lemma shift_map_right_cleared:
  "N \<le> n \<Longrightarrow>
   shift_map_right N r n = r\<lparr>num_bits := 0, bitmap := fill (bitmap r) 0\<rparr>"
  by (simp add: shift_map_right_def)

lemma shift_map_right_num_bits:
  "n < N \<Longrightarrow>
   num_bits (shift_map_right N r n) =
     (if num_bits r + n > N
      then find_new_max (bitmap (shift_map_right N r n)) (unat n div 32) (NITEMS N)
      else num_bits r + n)"
  by (simp add: shift_map_right_def Let_def unat_shift5 not_le [symmetric])

lemma shift_map_right_bits:
  assumes "well_formed N r"
  shows "bit_at (bitmap (shift_map_right N r n)) k
           \<longleftrightarrow> n < N \<and> k < 32 * NITEMS N \<and> unat n \<le> k \<and> bit_at (bitmap r) (k - unat n)"
proof (cases "n < N")
  case True
  have len: "length (bitmap r) = NITEMS N" using assms by (simp add: well_formed_def)
  have "unat n < unat N" using True by (simp add: word_less_nat_alt)
  then have "unat n < 32 * length (bitmap r)" using NITEMS_covers [of N] len by simp
  then have "unat n div 32 < length (bitmap r)" by simp
  then show ?thesis
    using True by (simp add: shift_map_right_bitmap [OF len True] bit_at_spec_shift_right len)
next
  case False
  then have c: "N \<le> n" by simp
  show ?thesis using False by (simp add: shift_map_right_cleared [OF c])
qed

lemma shift_map_right_length:
  assumes "well_formed N r"
  shows "length (bitmap (shift_map_right N r n)) = length (bitmap r)"
proof (cases "n < N")
  case True
  have len: "length (bitmap r) = NITEMS N" using assms by (simp add: well_formed_def)
  show ?thesis by (simp add: shift_map_right_bitmap [OF len True])
next
  case False
  then have c: "N \<le> n" by simp
  show ?thesis by (simp add: shift_map_right_cleared [OF c])
qed

lemma unat_watermark_sum:
  assumes "valid_NBITS N" "well_formed N r" "n < N"
  shows "unat (num_bits r + n) = unat (num_bits r) + unat n"
proof -
  have "unat (num_bits r) \<le> 32 * NITEMS N" using assms(2) by (simp add: well_formed_def)
  moreover have "unat n < unat N" using assms(3) by (simp add: word_less_nat_alt)
  moreover note NITEMS_bounds(3) [OF assms(1)] valid_NBITS_unat [OF assms(1)]
  ultimately have "unat (num_bits r) + unat n < 2 ^ LENGTH(32)" by simp
  then show ?thesis by (simp only: unat_add_lem)
qed

lemma well_formed_shift_map_right:
  assumes "valid_NBITS N" "well_formed N r"
  shows "well_formed N (shift_map_right N r n)"
proof (cases "n < N")
  case True
  have len: "length (bitmap r) = NITEMS N" using assms(2) by (simp add: well_formed_def)
  have "unat (num_bits (shift_map_right N r n)) \<le> 32 * NITEMS N"
  proof (cases "num_bits r + n > N")
    case big: True
    have "32 * NITEMS N < 2 ^ 32" using NITEMS_bounds(4) [OF assms(1)] by simp
    from find_new_max_le [OF this] show ?thesis
      by (simp add: shift_map_right_num_bits [OF True] big)
  next
    case False
    then have "num_bits r + n \<le> N" by simp
    then have "unat (num_bits r + n) \<le> 32 * NITEMS N"
      using NITEMS_covers [of N] by (simp add: word_le_nat_alt)
    then show ?thesis using False by (simp add: shift_map_right_num_bits [OF True])
  qed
  then show ?thesis
    using assms(2) shift_map_right_length [OF assms(2), of n] by (simp add: well_formed_def)
next
  case False
  then have c: "N \<le> n" by simp
  show ?thesis using assms(2) by (simp add: shift_map_right_cleared [OF c] well_formed_def)
qed

lemma watermark_bound_shift_map_right:
  assumes "valid_NBITS N" "well_formed N r" "watermark_bound r"
  shows "watermark_bound (shift_map_right N r n)"
proof (cases "n < N")
  case True
  have len: "length (bitmap r) = NITEMS N" using assms(2) by (simp add: well_formed_def)
  let ?r = "shift_map_right N r n"
  have "k < unat (num_bits ?r)" if b: "bit_at (bitmap ?r) k" for k
  proof -
    from b have k: "k < 32 * NITEMS N" "unat n \<le> k" "bit_at (bitmap r) (k - unat n)"
      unfolding shift_map_right_bits [OF assms(2)] by simp_all
    have old: "k - unat n < unat (num_bits r)" using k(3) assms(3) by (simp add: watermark_bound_def)
    show ?thesis
    proof (cases "num_bits r + n > N")
      case big: True
      have nb: "num_bits ?r = find_new_max (bitmap ?r) (unat n div 32) (NITEMS N)"
        by (simp add: shift_map_right_num_bits [OF True] big)
      have l: "NITEMS N \<le> length (bitmap ?r)"
        using shift_map_right_length [OF assms(2), of n] len by simp
      have s: "32 * NITEMS N < 2 ^ 32" using NITEMS_bounds(4) [OF assms(1)] by simp
      have low: "32 * (unat n div 32) \<le> k" using k(2) by simp
      show ?thesis
      proof (rule ccontr)
        assume "\<not> k < unat (num_bits ?r)"
        then have "unat (find_new_max (bitmap ?r) (unat n div 32) (NITEMS N)) \<le> k"
          by (simp add: nb)
        from find_new_max_above [OF l s this low k(1)] b show False by simp
      qed
    next
      case False
      then have "unat (num_bits ?r) = unat (num_bits r) + unat n"
        by (simp add: shift_map_right_num_bits [OF True] unat_watermark_sum [OF assms(1,2) True])
      then show ?thesis using old k(2) by simp
    qed
  qed
  then show ?thesis by (simp add: watermark_bound_def)
next
  case False
  then have c: "N \<le> n" by simp
  show ?thesis by (simp add: shift_map_right_cleared [OF c] watermark_bound_def)
qed

subsection \<open>The effect of \<open>base_update\<close>\<close>

lemma base_update_same: "base_update N r (base r) = r"
  by (simp add: base_update_def)

lemma base_update_fields:
  "b \<noteq> base r \<Longrightarrow> base (base_update N r b) = b"
  "b \<noteq> base r \<Longrightarrow> range_max (base_update N r b) = b + uint (N - 1)"
  by (simp_all add: base_update_def Let_def)

lemma base_update_up:
  assumes "base r < b"
  shows "bitmap (base_update N r b) = bitmap (shift_map_left N r (d_func b (base r)))"
    and "num_bits (base_update N r b) = num_bits (shift_map_left N r (d_func b (base r)))"
  using assms by (simp_all add: base_update_def Let_def)

lemma base_update_down:
  assumes "b < base r"
  shows "bitmap (base_update N r b) = bitmap (shift_map_right N r (d_func (base r) b))"
    and "num_bits (base_update N r b) = num_bits (shift_map_right N r (d_func (base r) b))"
  using assms by (simp_all add: base_update_def Let_def)

lemma well_formed_base_update:
  assumes "valid_NBITS N" "well_formed N r"
  shows "well_formed N (base_update N r b)"
proof -
  consider "b = base r" | "base r < b" | "b < base r" by linarith
  then show ?thesis
  proof cases
    case 1
    then show ?thesis using assms(2) by (simp add: base_update_same)
  next
    case 2
    then have "b \<noteq> base r" by simp
    with well_formed_shift_map_left [OF assms(2), of "d_func b (base r)"]
    show ?thesis
      unfolding well_formed_def base_update_up [OF 2] by (simp add: base_update_fields)
  next
    case 3
    then have "b \<noteq> base r" by simp
    with well_formed_shift_map_right [OF assms, of "d_func (base r) b"]
    show ?thesis
      unfolding well_formed_def base_update_down [OF 3] by (simp add: base_update_fields)
  qed
qed

lemma watermark_bound_base_update:
  assumes "valid_NBITS N" "well_formed N r" "watermark_bound r"
  shows "watermark_bound (base_update N r b)"
proof -
  consider "b = base r" | "base r < b" | "b < base r" by linarith
  then show ?thesis
  proof cases
    case 1
    then show ?thesis using assms(3) by (simp add: base_update_same)
  next
    case 2
    from watermark_bound_shift_map_left [OF assms(2,3), of "d_func b (base r)"]
    show ?thesis
      unfolding watermark_bound_def base_update_up [OF 2] .
  next
    case 3
    from watermark_bound_shift_map_right [OF assms, of "d_func (base r) b"]
    show ?thesis
      unfolding watermark_bound_def base_update_down [OF 3] .
  qed
qed

subsection \<open>The invariants hold in the reachable states\<close>

lemma reachable_well_formed:
  assumes "valid_NBITS N"
  shows "reachable tidy N r \<Longrightarrow> well_formed N r"
proof (induction rule: reachable.induct)
  case (constructed b)
  show ?case by (rule well_formed_BitmapRange)
next
  case (after_set_base r b)
  then show ?case by (intro well_formed_set_base)
next
  case (after_base_update r b)
  then show ?case by (intro well_formed_base_update assms)
next
  case (after_add r x)
  have "0 < N" using assms by (simp add: valid_NBITS_def)
  with after_add show ?case by (intro well_formed_add)
next
  case (after_bitmap_set r nbits ws)
  then show ?case by (intro well_formed_bitmap_set)
qed

lemma reachable_watermark_bound:
  assumes "valid_NBITS N"
  shows "reachable True N r \<Longrightarrow> watermark_bound r"
proof (induction rule: reachable.induct)
  case (constructed b)
  show ?case by (rule watermark_bound_BitmapRange)
next
  case (after_set_base r b)
  show ?case by (rule watermark_bound_set_base)
next
  case (after_base_update r b)
  then show ?case
    by (intro watermark_bound_base_update assms reachable_well_formed)
next
  case (after_add r x)
  have "0 < N" using assms by (simp add: valid_NBITS_def)
  with after_add show ?case
    by (intro watermark_bound_add [of N] reachable_well_formed assms)
next
  case (after_bitmap_set r nbits ws)
  then show ?case
    by (intro watermark_bound_bitmap_set [of N] reachable_well_formed assms) simp_all
qed

subsection \<open>Where the watermark stays tight\<close>

lemma reachable_tight_reachable: "reachable_tight N r \<Longrightarrow> reachable True N r"
  by (induction rule: reachable_tight.induct) (auto intro: reachable.intros)

lemma reachable_tight_add_all: "reachable_tight N r \<Longrightarrow> reachable_tight N (add_all r xs)"
  by (induction xs arbitrary: r) (simp_all add: add_all_Cons tight_add)

lemma find_new_max_tight:
  assumes "i \<le> length bm" "32 * i < 2 ^ 32"
  shows "find_new_max bm n i = 0 \<or> bit_at bm (unat (find_new_max bm n i) - 1)"
  using assms
proof (induction i)
  case 0
  then show ?case by simp
next
  case (Suc i)
  show ?case
  proof (cases "Suc i > n \<and> bm ! i \<noteq> 0")
    case True
    define bits' where "bits' = bm ! i AND NOT (bm ! i - 1)"
    define c where "c = builtin_clz bits'"
    have nz': "bits' \<noteq> 0" using True by (simp add: bits'_def isolated_nonzero)
    have c32: "c < 32" and hit: "bit bits' (31 - c)"
      using builtin_clz_less [OF nz'] builtin_clz_bit [OF nz'] by (simp_all add: c_def)
    have "find_new_max bm n (Suc i) = push_bit 5 (word_of_nat i) + (word_of_nat c + 1)"
      using True by (simp add: Let_def bits'_def c_def)
    then have r: "unat (find_new_max bm n (Suc i)) - 1 = 32 * i + c"
      using unat_find_result [OF c32, of i] Suc.prems by simp
    have "bit (bm ! i) (31 - c)" using hit by (simp add: bits'_def bit_simps)
    then have "bit_at bm (32 * i + c)"
      using bit_at_split [OF c32, of bm i] Suc.prems(1) by simp
    then show ?thesis unfolding r by simp
  next
    case False
    then have "find_new_max bm n (Suc i) = 0 \<or> find_new_max bm n (Suc i) = find_new_max bm n i"
      by auto
    with Suc show ?thesis by auto
  qed
qed

lemma watermark_tight_add:
  assumes "well_formed N r" "0 < N" "watermark_tight r"
  shows "watermark_tight (snd (add r x))"
proof (cases "base r \<le> x \<and> x \<le> range_max r")
  case True
  then have w: "base r \<le> x" "x \<le> range_max r" by simp_all
  note a = add_in_window [OF assms(1,2) w]
  define d where "d = nat (x - base r)"
  have nb: "unat (num_bits (snd (add r x))) = max (d + 1) (unat (num_bits r))"
    and bits: "bit_at (bitmap (snd (add r x))) k \<longleftrightarrow> k = d \<or> bit_at (bitmap r) k" for k
    using a(5,6) by (simp_all add: d_def)
  show ?thesis
  proof (cases "unat (num_bits r) \<le> d + 1")
    case True
    then have "unat (num_bits (snd (add r x))) - 1 = d" by (simp add: nb)
    then show ?thesis by (simp add: watermark_tight_def bits)
  next
    case False
    then have "unat (num_bits (snd (add r x))) = unat (num_bits r)" by (simp add: nb)
    moreover have "num_bits r \<noteq> 0" using False by auto
    ultimately show ?thesis using assms(3) by (simp add: watermark_tight_def bits)
  qed
next
  case False
  then show ?thesis using assms by (simp add: add_out_of_window)
qed

lemma watermark_tight_shift_map_left:
  assumes "well_formed N r" "watermark_bound r" "watermark_tight r"
  shows "watermark_tight (shift_map_left N r n)"
proof (cases "n < num_bits r")
  case True
  then have lt: "unat n < unat (num_bits r)" by (simp add: word_less_nat_alt)
  then have "num_bits r \<noteq> 0" by auto
  then have "bit_at (bitmap r) (unat (num_bits r) - 1)"
    using assms(3) by (simp add: watermark_tight_def)
  moreover have "unat (num_bits r) - unat n - 1 + unat n = unat (num_bits r) - 1"
    using lt by simp
  ultimately show ?thesis
    unfolding watermark_tight_def shift_map_left_bits [OF assms(1,2)] shift_map_left_watermark
    by simp
next
  case False
  then have c: "num_bits r \<le> n" by simp
  show ?thesis by (simp add: shift_map_left_cleared [OF c] watermark_tight_def)
qed

lemma watermark_tight_shift_map_right:
  assumes v: "valid_NBITS N" and wf: "well_formed N r" and t: "watermark_tight r"
    and ne: "num_bits r \<noteq> 0"
  shows "watermark_tight (shift_map_right N r n)"
proof (cases "n < N")
  case True
  let ?r = "shift_map_right N r n"
  have len: "length (bitmap r) = NITEMS N" using wf by (simp add: well_formed_def)
  show ?thesis
  proof (cases "num_bits r + n > N")
    case big: True
    have nb: "num_bits ?r = find_new_max (bitmap ?r) (unat n div 32) (NITEMS N)"
      by (simp add: shift_map_right_num_bits [OF True] big)
    have l: "NITEMS N \<le> length (bitmap ?r)"
      using shift_map_right_length [OF wf, of n] len by simp
    have s: "32 * NITEMS N < 2 ^ 32" using NITEMS_bounds(4) [OF v] by simp
    from find_new_max_tight [OF l s, of "unat n div 32"] show ?thesis
      unfolding watermark_tight_def nb [symmetric] .
  next
    case False
    then have le: "num_bits r + n \<le> N" by simp
    have sum: "unat (num_bits r + n) = unat (num_bits r) + unat n"
      by (rule unat_watermark_sum [OF v wf True])
    have nb: "unat (num_bits ?r) = unat (num_bits r) + unat n"
      using False by (simp add: shift_map_right_num_bits [OF True] sum)
    have pos: "0 < unat (num_bits r)" using ne by (simp add: unat_gt_0)
    have "unat (num_bits r) + unat n \<le> unat N"
      using le sum by (simp add: word_le_nat_alt)
    then have in_range: "unat (num_bits r) + unat n - 1 < 32 * NITEMS N"
      using NITEMS_covers [of N] pos by simp
    have old: "bit_at (bitmap r) (unat (num_bits r) - 1)"
      using t ne by (simp add: watermark_tight_def)
    have "unat (num_bits r) + unat n - 1 - unat n = unat (num_bits r) - 1"
      using pos by simp
    then have "bit_at (bitmap ?r) (unat (num_bits r) + unat n - 1)"
      unfolding shift_map_right_bits [OF wf] using True in_range old pos by simp
    then show ?thesis by (simp add: watermark_tight_def nb)
  qed
next
  case False
  then have c: "N \<le> n" by simp
  show ?thesis by (simp add: shift_map_right_cleared [OF c] watermark_tight_def)
qed

lemma watermark_tight_bitmap_set:
  assumes "well_formed N r" "(unat (min nb N) + 31) div 32 \<le> length ws" "tight_input N nb ws"
  shows "watermark_tight (bitmap_set N r nb ws)"
proof (cases "min nb N = 0")
  case True
  have len: "length (bitmap r) = NITEMS N" using assms(1) by (simp add: well_formed_def)
  show ?thesis using True by (simp add: watermark_tight_def bitmap_set_effect(1) [OF len])
next
  case False
  have len: "length (bitmap r) = NITEMS N" using assms(1) by (simp add: well_formed_def)
  note e = bitmap_set_effect [OF len, of nb ws]
  define m where "m = unat (min nb N)"
  have pos: "0 < m" using False by (simp add: m_def unat_gt_0)
  define q where "q = (m + 31) div 32"
  have "m + 31 < 32 * q + 32" unfolding q_def by (simp add: algebra_simps)
  then have k: "m - 1 < 32 * q" using pos by simp
  have "bit_at ws (m - 1)" using assms(3) False by (simp add: tight_input_def m_def)
  then have "bit_at (take q ws @ replicate (NITEMS N - q) 0) (m - 1)"
    using bit_at_append_take [OF k, of ws] assms(2) by (simp add: q_def m_def)
  then show ?thesis
    unfolding watermark_tight_def e by (simp add: m_def q_def)
qed

lemma reachable_tight_watermark:
  assumes v: "valid_NBITS N"
  shows "reachable_tight N r \<Longrightarrow> watermark_tight r"
proof (induction rule: reachable_tight.induct)
  case (tight_constructed b)
  show ?case by (simp add: watermark_tight_def BitmapRange_def)
next
  case (tight_set_base r b)
  show ?case by (simp add: watermark_tight_def set_base_def)
next
  case (tight_add r x)
  have "0 < N" using v by (simp add: valid_NBITS_def)
  moreover have "well_formed N r"
    by (rule reachable_well_formed [OF v reachable_tight_reachable [OF tight_add.hyps]])
  ultimately show ?case using tight_add.IH by (intro watermark_tight_add)
next
  case (tight_bitmap_set r nbits ws)
  have "well_formed N r"
    by (rule reachable_well_formed [OF v reachable_tight_reachable [OF tight_bitmap_set.hyps(1)]])
  then show ?case using tight_bitmap_set.hyps(2,4) by (intro watermark_tight_bitmap_set)
next
  case (tight_base_update r b)
  have re: "reachable True N r" by (rule reachable_tight_reachable [OF tight_base_update.hyps(1)])
  have wf: "well_formed N r" by (rule reachable_well_formed [OF v re])
  have wm: "watermark_bound r" by (rule reachable_watermark_bound [OF v re])
  consider "b = base r" | "base r < b" | "b < base r" by linarith
  then show ?case
  proof cases
    case 1
    then show ?thesis using tight_base_update.IH by (simp add: base_update_same)
  next
    case 2
    from watermark_tight_shift_map_left [OF wf wm tight_base_update.IH, of "d_func b (base r)"]
    show ?thesis unfolding watermark_tight_def base_update_up [OF 2] .
  next
    case 3
    have "num_bits r \<noteq> 0" using tight_base_update.hyps(2) [OF 3] by (simp add: empty_def)
    from watermark_tight_shift_map_right [OF v wf tight_base_update.IH this, of "d_func (base r) b"]
    show ?thesis unfolding watermark_tight_def base_update_down [OF 3] .
  qed
qed

subsection \<open>The empty range moved down, and the round trip\<close>

lemma spec_shift_right_zeros:
  "spec_shift_right (replicate n 0) s = replicate n 0"
  by (rule nth_equalityI) (simp_all add: spec_shift_right_def Let_def)

lemma for_each_zero_bitmap:
  assumes "bitmap r = replicate n 0" "unat (num_bits r) \<le> 32 * n"
  shows "for_each r = []"
proof -
  have "n_longs r \<le> length (bitmap r)" using assms by (intro n_longs_le) simp
  from for_each_eq [OF this] show ?thesis by (simp add: assms(1))
qed

lemma base_update_empty_down:
  assumes z: "bitmap r = replicate (NITEMS N) 0" and e: "num_bits r = 0"
    and lt: "b < base r" and d: "d_func (base r) b < N"
  shows "bitmap (base_update N r b) = replicate (NITEMS N) 0"
    and "num_bits (base_update N r b) = d_func (base r) b"
    and "for_each (base_update N r b) = []"
proof -
  have len: "length (bitmap r) = NITEMS N" by (simp add: z)
  show bm: "bitmap (base_update N r b) = replicate (NITEMS N) 0"
    by (simp add: base_update_down [OF lt] shift_map_right_bitmap [OF len d] z
        spec_shift_right_zeros)
  have "\<not> N < d_func (base r) b" using d by simp
  then show nb: "num_bits (base_update N r b) = d_func (base r) b"
    by (simp add: base_update_down [OF lt] shift_map_right_num_bits [OF d] e)
  have "unat (d_func (base r) b) \<le> 32 * NITEMS N"
    using d NITEMS_covers [of N] by (simp add: word_less_nat_alt)
  then show "for_each (base_update N r b) = []"
    by (intro for_each_zero_bitmap [OF bm]) (simp add: nb)
qed

lemma words_used_same:
  assumes "unat nb \<le> 32 * NITEMS N"
  shows "(unat (min nb N) + 31) div 32 = (unat nb + 31) div 32"
proof (cases "nb \<le> N")
  case True
  then show ?thesis by (simp add: min_def)
next
  case False
  then have m: "min nb N = N" and lt: "unat N < unat nb"
    by (simp_all add: min_def word_le_nat_alt)
  have "(unat N + 31) div 32 \<le> (unat nb + 31) div 32"
    using lt by (intro div_le_mono) simp
  moreover have "(unat nb + 31) div 32 \<le> (32 * NITEMS N + 31) div 32"
    using assms by (intro div_le_mono) simp
  ultimately show ?thesis by (simp add: m NITEMS_def)
qed

lemma for_each_bitmap_set:
  assumes wf: "well_formed N r" and len2: "length (bitmap r2) = NITEMS N"
    and b: "base r2 = base r"
    and ws: "take (n_longs r) ws = take (n_longs r) (bitmap r)" "n_longs r \<le> length ws"
  shows "for_each (bitmap_set N r2 (num_bits r) ws) = for_each r"
proof -
  let ?x = "bitmap_set N r2 (num_bits r) ws"
  have len: "length (bitmap r) = NITEMS N" and nb: "unat (num_bits r) \<le> 32 * NITEMS N"
    using wf by (simp_all add: well_formed_def)
  have used: "(unat (min (num_bits r) N) + 31) div 32 = n_longs r"
    using words_used_same [OF nb] by (simp add: n_longs_def)
  note e = bitmap_set_effect [OF len2, of "num_bits r" ws, unfolded used]
  have nl: "n_longs r \<le> length (bitmap r)" using nb len by (intro n_longs_le) simp
  have nx: "n_longs ?x = n_longs r" using used by (simp add: n_longs_def e(1))
  have lx: "n_longs ?x \<le> length (bitmap ?x)" using ws(2) nl len by (simp add: nx e(2))
  have same: "bit_at (bitmap ?x) k \<longleftrightarrow> bit_at (bitmap r) k" if "k < 32 * n_longs r" for k
  proof -
    have "bit_at (bitmap ?x) k \<longleftrightarrow> bit_at ws k"
      unfolding e(2) using that ws(2) by (rule bit_at_append_take)
    also have "\<dots> \<longleftrightarrow> bit_at (take (n_longs r) ws @ []) k"
      using bit_at_append_take [OF that ws(2), of "[]"] by simp
    also have "\<dots> \<longleftrightarrow> bit_at (take (n_longs r) (bitmap r) @ []) k" by (simp add: ws(1))
    also have "\<dots> \<longleftrightarrow> bit_at (bitmap r) k"
      using that nl by (rule bit_at_append_take)
    finally show ?thesis .
  qed
  have "filter (bit_at (bitmap ?x)) [0..<32 * n_longs r]
      = filter (bit_at (bitmap r)) [0..<32 * n_longs r]"
    by (rule filter_cong) (simp_all add: same)
  then show ?thesis
    unfolding for_each_eq [OF lx] for_each_eq [OF nl] nx by (simp add: e(3) b)
qed

subsection \<open>The items before and after \<open>base_update\<close>\<close>

lemma tidy_input_code [code]:
  "tidy_input N nb ws \<longleftrightarrow>
     (let m = unat (min nb N); nw = (m + 31) div 32
      in list_all (\<lambda>k. \<not> bit_at (take nw ws) k) [m..<32 * nw])"
proof -
  define m nw where "m = unat (min nb N)" and "nw = (m + 31) div 32"
  have "(\<forall>k. bit_at (take nw ws) k \<longrightarrow> k < m)
      \<longleftrightarrow> (\<forall>k\<in>{m..<32 * nw}. \<not> bit_at (take nw ws) k)"
  proof (intro iffI ballI allI impI)
    fix k assume "\<forall>k. bit_at (take nw ws) k \<longrightarrow> k < m" "k \<in> {m..<32 * nw}"
    then show "\<not> bit_at (take nw ws) k" by auto
  next
    fix k assume a: "\<forall>k\<in>{m..<32 * nw}. \<not> bit_at (take nw ws) k" "bit_at (take nw ws) k"
    from bit_at_bound [OF a(2)] have "k < 32 * nw" by simp
    with a show "k < m" by (cases "k < m") auto
  qed
  then show ?thesis
    by (simp add: tidy_input_def Let_def list_all_iff m_def nw_def)
qed

lemma NITEMS_exact: "32 dvd unat N \<Longrightarrow> 32 * NITEMS N = unat N"
  by (auto simp add: NITEMS_def elim!: dvdE)

lemma base_update_base: "base (base_update N r b) = b"
  by (cases "b = base r") (simp_all add: base_update_same base_update_fields)

lemma base_update_bits_up:
  assumes "well_formed N r" "watermark_bound r" "base r < b" "b - base r < 2 ^ 32"
  shows "bit_at (bitmap (base_update N r b)) k \<longleftrightarrow> bit_at (bitmap r) (k + nat (b - base r))"
proof -
  have "unat (d_func b (base r)) = nat (b - base r)"
    using assms(3,4) by (intro unat_d_func) simp_all
  then show ?thesis
    by (simp add: base_update_up [OF assms(3)] shift_map_left_bits [OF assms(1,2)])
qed

lemma base_update_bits_down:
  assumes "well_formed N r" "b < base r" "base r - b < 2 ^ 32"
  shows "bit_at (bitmap (base_update N r b)) k
           \<longleftrightarrow> nat (base r - b) < unat N \<and> k < 32 * NITEMS N \<and> nat (base r - b) \<le> k
               \<and> bit_at (bitmap r) (k - nat (base r - b))"
proof -
  have "unat (d_func (base r) b) = nat (base r - b)"
    using assms(2,3) by (intro unat_d_func) simp_all
  then show ?thesis
    by (simp add: base_update_down [OF assms(2)] shift_map_right_bits [OF assms(1)]
        word_less_nat_alt)
qed

lemma base_update_items_any:
  assumes v: "valid_NBITS N" and wf: "well_formed N r" and wm: "watermark_bound r"
    and dist: "\<bar>b - base r\<bar> < 2 ^ 32"
  shows "x \<in> set (for_each (base_update N r b))
           \<Longrightarrow> x \<in> set (for_each r) \<and> b \<le> x \<and> x < b + int (32 * NITEMS N)"
    and "x \<in> set (for_each r) \<Longrightarrow> b \<le> x \<Longrightarrow> x < b + int (unat N)
           \<Longrightarrow> x \<in> set (for_each (base_update N r b))"
proof -
  let ?r = "base_update N r b"
  have wf': "well_formed N ?r" by (rule well_formed_base_update [OF v wf])
  have wm': "watermark_bound ?r" by (rule watermark_bound_base_update [OF v wf wm])
  have len: "length (bitmap r) = NITEMS N" using wf by (simp add: well_formed_def)
  have len': "length (bitmap ?r) = NITEMS N" using wf' by (simp add: well_formed_def)
  have S: "set (for_each r) = {base r + int k | k. bit_at (bitmap r) k}"
    by (rule for_each_set_below_watermark [OF wf wm])
  have S': "set (for_each ?r) = {b + int k | k. bit_at (bitmap ?r) k}"
    using for_each_set_below_watermark [OF wf' wm'] by (simp add: base_update_base)
  have window: "b \<le> b + int k \<and> b + int k < b + int (32 * NITEMS N)"
    if "bit_at (bitmap ?r) k" for k
  proof -
    have "k < 32 * NITEMS N" using bit_at_bound [OF that] len' by simp
    then have "b + int k < b + int (32 * NITEMS N)"
      by (simp only: add_less_cancel_left of_nat_less_iff)
    then show ?thesis by simp
  qed
  consider "b = base r" | "base r < b" | "b < base r" by linarith
  then have "(x \<in> set (for_each ?r)
        \<longrightarrow> x \<in> set (for_each r) \<and> b \<le> x \<and> x < b + int (32 * NITEMS N))
      \<and> (x \<in> set (for_each r) \<and> b \<le> x \<and> x < b + int (unat N)
        \<longrightarrow> x \<in> set (for_each ?r))"
  proof cases
    case 1
    have same: "?r = r" using 1 by (simp add: base_update_same)
    have "b \<le> x \<and> x < b + int (32 * NITEMS N)" if "x \<in> set (for_each r)"
    proof -
      from that obtain k where k: "x = base r + int k" "bit_at (bitmap r) k"
        unfolding S by auto
      from window [of k] k(2) same
      have "b \<le> b + int k \<and> b + int k < b + int (32 * NITEMS N)" by simp
      then show ?thesis using k(1) 1 by simp
    qed
    then show ?thesis using same by auto
  next
    case 2
    define s where "s = nat (b - base r)"
    have b: "b = base r + int s" using 2 by (simp add: s_def)
    have bits: "bit_at (bitmap ?r) k \<longleftrightarrow> bit_at (bitmap r) (k + s)" for k
      unfolding s_def using dist 2 by (intro base_update_bits_up [OF wf wm]) simp_all
    have "x \<in> set (for_each r) \<and> b \<le> x \<and> x < b + int (32 * NITEMS N)"
      if "x \<in> set (for_each ?r)"
    proof -
      from that obtain k where k: "x = b + int k" "bit_at (bitmap ?r) k"
        unfolding S' by auto
      have "x = base r + int (k + s)" using k(1) b by simp
      moreover have "bit_at (bitmap r) (k + s)" using k(2) by (simp add: bits)
      ultimately have "x \<in> set (for_each r)" unfolding S by blast
      then show ?thesis using window [OF k(2)] unfolding k(1) by blast
    qed
    moreover have "x \<in> set (for_each ?r)" if "x \<in> set (for_each r)" "b \<le> x"
    proof -
      from that obtain k0 where k0: "x = base r + int k0" "bit_at (bitmap r) k0"
        unfolding S by auto
      have sk: "s \<le> k0" using that(2) k0(1) b by simp
      then have "bit_at (bitmap ?r) (k0 - s)" using k0(2) by (simp add: bits)
      moreover have "x = b + int (k0 - s)" using k0(1) b sk by simp
      ultimately show ?thesis unfolding S' by blast
    qed
    ultimately show ?thesis by blast
  next
    case 3
    define s where "s = nat (base r - b)"
    have b: "base r = b + int s" using 3 by (simp add: s_def)
    have bits: "bit_at (bitmap ?r) k \<longleftrightarrow>
        s < unat N \<and> k < 32 * NITEMS N \<and> s \<le> k \<and> bit_at (bitmap r) (k - s)" for k
    proof -
      have "base r - b < 2 ^ 32" using dist 3 by simp
      from base_update_bits_down [OF wf 3 this, of k] show ?thesis
        by (simp add: s_def)
    qed
    have "x \<in> set (for_each r) \<and> b \<le> x \<and> x < b + int (32 * NITEMS N)"
      if "x \<in> set (for_each ?r)"
    proof -
      from that obtain k where k: "x = b + int k" "bit_at (bitmap ?r) k"
        unfolding S' by auto
      from k(2) have k': "s \<le> k" "bit_at (bitmap r) (k - s)" unfolding bits by simp_all
      have "x = base r + int (k - s)" using k(1) k'(1) b by simp
      with k'(2) have "x \<in> set (for_each r)" unfolding S by blast
      then show ?thesis using window [OF k(2)] unfolding k(1) by blast
    qed
    moreover have "x \<in> set (for_each ?r)"
      if "x \<in> set (for_each r)" "x < b + int (unat N)"
    proof -
      from that obtain k0 where k0: "x = base r + int k0" "bit_at (bitmap r) k0"
        unfolding S by auto
      have "b + int (s + k0) < b + int (unat N)" using that(2) k0(1) b by simp
      then have in_new: "s + k0 < unat N"
        by (simp only: add_less_cancel_left of_nat_less_iff)
      then have "s + k0 < 32 * NITEMS N" using NITEMS_covers [of N] by simp
      then have "bit_at (bitmap ?r) (s + k0)" unfolding bits using in_new k0(2) by simp
      moreover have "x = b + int (s + k0)" using k0(1) b by simp
      ultimately show ?thesis unfolding S' by blast
    qed
    ultimately show ?thesis by blast
  qed
  then show "x \<in> set (for_each (base_update N r b))
           \<Longrightarrow> x \<in> set (for_each r) \<and> b \<le> x \<and> x < b + int (32 * NITEMS N)"
    and "x \<in> set (for_each r) \<Longrightarrow> b \<le> x \<Longrightarrow> x < b + int (unat N)
           \<Longrightarrow> x \<in> set (for_each (base_update N r b))"
    by blast+
qed

subsection \<open>The scenarios are reachable\<close>

lemma reachable_stray_bits: "reachable False 256 stray_bits"
  unfolding stray_bits_def
  by (intro after_bitmap_set constructed) simp_all

lemma reachable_empty_slid: "reachable True 256 empty_slid"
  unfolding empty_slid_def by (intro after_base_update constructed)

lemma reachable_wire_range: "reachable True 256 wire_range"
proof -
  have "tidy_input 256 40 [4026531840, 16777216]" by code_simp
  moreover have "(unat (min 40 (256 :: u32)) + 31) div 32 \<le> length [4026531840 :: u32, 16777216]"
    by code_simp
  ultimately show ?thesis
    unfolding wire_range_def
    by (intro reachable_add_all after_bitmap_set constructed)
qed

lemma reachable_far_range: "reachable True 256 far_range"
  unfolding far_range_def by (intro reachable_add_all constructed)

lemma reachable_odd_range: "reachable True 40 odd_range"
  unfolding odd_range_def by (intro reachable_add_all constructed)

subsection \<open>An empty range has no bit set\<close>

lemma find_new_max_zero:
  assumes "32 * i + 32 < 2 ^ 32" "find_new_max bm n i = 0" "n \<le> j" "j < i"
  shows "bm ! j = 0"
  using assms
proof (induction i)
  case 0
  then show ?case by simp
next
  case (Suc i)
  have gt: "Suc i > n" using Suc.prems(3,4) by simp
  have z: "bm ! i = 0"
  proof (rule ccontr)
    assume nz: "bm ! i \<noteq> 0"
    define c where "c = builtin_clz (bm ! i AND NOT (bm ! i - 1))"
    have c32: "c < 32" using builtin_clz_less [OF isolated_nonzero [OF nz]] by (simp add: c_def)
    have "find_new_max bm n (Suc i) = push_bit 5 (word_of_nat i) + (word_of_nat c + 1)"
      using gt nz by (simp add: Let_def c_def)
    then have "unat (find_new_max bm n (Suc i)) = 32 * i + c + 1"
      using unat_find_result [OF c32, of i] Suc.prems(1) by simp
    then show False using Suc.prems(2) by simp
  qed
  show ?case
  proof (cases "j = i")
    case True
    then show ?thesis using z by simp
  next
    case False
    have "find_new_max bm n i = 0" using Suc.prems(2) gt z by simp
    then show ?thesis using Suc.IH Suc.prems False by simp
  qed
qed

lemma spec_shift_right_low_words:
  "j < s div 32 \<Longrightarrow> j < length src \<Longrightarrow> spec_shift_right src s ! j = 0"
  by (simp add: spec_shift_right_def Let_def)

lemma reachable_empty_zero:
  assumes v: "valid_NBITS N"
  shows "reachable tidy N r \<Longrightarrow> num_bits r = 0 \<Longrightarrow> bitmap r = replicate (NITEMS N) 0"
proof (induction rule: reachable.induct)
  case (constructed b)
  show ?case by (simp add: BitmapRange_def)
next
  case (after_set_base r b)
  have "length (bitmap r) = NITEMS N"
    using reachable_well_formed [OF v after_set_base.hyps] by (simp add: well_formed_def)
  then show ?case by (simp add: set_base_def fill_replicate)
next
  case (after_add r x)
  have wf: "well_formed N r" by (rule reachable_well_formed [OF v after_add.hyps])
  have N: "0 < N" using v by (simp add: valid_NBITS_def)
  show ?case
  proof (cases "base r \<le> x \<and> x \<le> range_max r")
    case True
    then have w: "base r \<le> x" "x \<le> range_max r" by simp_all
    from add_in_window(5) [OF wf N w] after_add.prems show ?thesis by simp
  next
    case False
    then show ?thesis using after_add by (simp add: add_out_of_window)
  qed
next
  case (after_bitmap_set r nbits ws)
  have len: "length (bitmap r) = NITEMS N"
    using reachable_well_formed [OF v after_bitmap_set.hyps(1)] by (simp add: well_formed_def)
  note e = bitmap_set_effect [OF len, of nbits ws]
  from after_bitmap_set.prems show ?case unfolding e by simp
next
  case (after_base_update r b)
  have wf: "well_formed N r" by (rule reachable_well_formed [OF v after_base_update.hyps])
  have len: "length (bitmap r) = NITEMS N" using wf by (simp add: well_formed_def)
  consider "b = base r" | "base r < b" | "b < base r" by linarith
  then show ?case
  proof cases
    case 1
    then show ?thesis using after_base_update by (simp add: base_update_same)
  next
    case 2
    let ?n = "d_func b (base r)"
    show ?thesis
    proof (cases "?n < num_bits r")
      case True
      then have "num_bits r - ?n \<noteq> 0" by auto
      then show ?thesis
        using after_base_update.prems
        by (simp add: base_update_up [OF 2] shift_map_left_num_bits [OF True])
    next
      case False
      then have c: "num_bits r \<le> ?n" by simp
      show ?thesis
        by (simp add: base_update_up [OF 2] shift_map_left_cleared [OF c] fill_replicate len)
    qed
  next
    case 3
    let ?n = "d_func (base r) b"
    let ?bm = "bitmap (shift_map_right N r ?n)"
    show ?thesis
    proof (cases "?n < N")
      case False
      then have c: "N \<le> ?n" by simp
      show ?thesis
        by (simp add: base_update_down [OF 3] shift_map_right_cleared [OF c] fill_replicate len)
    next
      case True
      have bm: "?bm = spec_shift_right (bitmap r) (unat ?n)"
        by (rule shift_map_right_bitmap [OF len True])
      have nb0: "num_bits (shift_map_right N r ?n) = 0"
        using after_base_update.prems by (simp add: base_update_down [OF 3])
      show ?thesis
      proof (cases "num_bits r + ?n > N")
        case big: True
        have f: "find_new_max ?bm (unat ?n div 32) (NITEMS N) = 0"
          using nb0 by (simp add: shift_map_right_num_bits [OF True] big)
        have s: "32 * NITEMS N + 32 < 2 ^ 32" by (rule NITEMS_bounds(4) [OF v])
        have "?bm ! j = 0" if "j < NITEMS N" for j
        proof (cases "unat ?n div 32 \<le> j")
          case True
          from find_new_max_zero [OF s f True that] show ?thesis .
        next
          case False
          then show ?thesis using that len by (simp add: bm spec_shift_right_low_words)
        qed
        then have "?bm = replicate (NITEMS N) 0"
          by (intro nth_equalityI) (simp_all add: bm len)
        then show ?thesis by (simp add: base_update_down [OF 3])
      next
        case False
        then have "num_bits r + ?n = 0"
          using nb0 by (simp add: shift_map_right_num_bits [OF True])
        then have "unat (num_bits r) + unat ?n = 0"
          using unat_watermark_sum [OF v wf True] by simp
        then have z: "num_bits r = 0" "unat ?n = 0" by (simp_all add: unat_eq_0)
        from after_base_update.IH [OF z(1)] show ?thesis
          by (simp add: base_update_down [OF 3] bm z(2) spec_shift_right_zeros)
      qed
    qed
  qed
qed

lemma reachable_wire_zero: "reachable True 256 wire_zero"
proof -
  have "tidy_input 256 5 [0]" by code_simp
  moreover have "(unat (min 5 (256 :: u32)) + 31) div 32 \<le> length [0 :: u32]" by code_simp
  ultimately show ?thesis
    unfolding wire_zero_def by (intro after_bitmap_set constructed)
qed

lemma reachable_odd_inner: "reachable True 40 odd_inner"
  unfolding odd_inner_def by (intro reachable_add_all constructed)

lemma reachable_tight_wire_range: "reachable_tight 256 wire_range"
proof -
  have "tidy_input 256 40 [4026531840, 16777216]" "tight_input 256 40 [4026531840, 16777216]"
    by code_simp+
  moreover have "(unat (min 40 (256 :: u32)) + 31) div 32 \<le> length [4026531840 :: u32, 16777216]"
    by code_simp
  ultimately show ?thesis
    unfolding wire_range_def
    by (intro reachable_tight_add_all tight_bitmap_set tight_constructed)
qed

section \<open>Claims\<close>

text \<open>
  C1, as the specification states it: after any sequence of public operations, either
  \<open>num_bits = 0\<close> or some offset below \<open>num_bits\<close> has its bit set, and every bit at an
  offset at or above \<open>num_bits\<close> is 0. Both parts fail on the code, through \<open>bitmap_set\<close>,
  which takes the caller's \<open>num_bits\<close> and words as they come.
  \<^item> After \<open>bitmap_set(1, w)\<close> with only the bit of offset 5 set in \<open>w\<close> (\<open>stray_bits\<close>),
    \<open>num_bits\<close> is 1, the bit of offset 0 is not set and the bit of offset 5 is: both
    parts fail.
  \<^item> After \<open>bitmap_set(5, w)\<close> with \<open>w = 0\<close> (\<open>wire_zero\<close>), an input with no bit at or above
    its \<open>num_bits\<close>, \<open>num_bits\<close> is 5 and no bit is set: the first part fails.

  The first part also fails after \<open>BitmapRange(1000)\<close> and \<open>base_update(900)\<close>
  (\<open>empty_slid\<close>): \<open>num_bits\<close> is 100 and no bit is set, so that \<open>empty()\<close> is false of a
  range that holds nothing. Here the code departs from its own comments (\<open>empty()\<close>:
  "has all bits unset"; \<open>num_bits_\<close>: "holds the highest bit set"): \<open>shift_map_right\<close>
  adds the shift to a watermark of 0.
\<close>

theorem watermark_invariant_as_stated_fails:
  "reachable False 256 stray_bits \<and> num_bits stray_bits = 1
   \<and> \<not> bit_at (bitmap stray_bits) 0 \<and> bit_at (bitmap stray_bits) 5
   \<and> reachable True 256 wire_zero \<and> num_bits wire_zero = 5
   \<and> bitmap wire_zero = replicate 8 0
   \<and> reachable True 256 empty_slid \<and> num_bits empty_slid = 100
   \<and> bitmap empty_slid = replicate 8 0 \<and> \<not> empty empty_slid"
proof -
  have "num_bits stray_bits = 1" "\<not> bit_at (bitmap stray_bits) 0"
    "bit_at (bitmap stray_bits) 5"
    "num_bits wire_zero = 5" "bitmap wire_zero = replicate 8 0"
    "num_bits empty_slid = 100" "bitmap empty_slid = replicate 8 0" "\<not> empty empty_slid"
    by code_simp+
  then show ?thesis
    using reachable_stray_bits reachable_wire_zero reachable_empty_slid by simp
qed

text \<open>
  C1, amended (\<open>0 < NBITS \<le> 2^30\<close>). After any sequence of public operations in which
  every call of \<open>bitmap_set\<close> is given words with no bit set at or above the clamped
  \<open>num_bits\<close> of the call, every bit of the bitmap at an offset at or above \<open>num_bits\<close>
  is 0. If moreover every call of \<open>bitmap_set\<close> is given words whose highest set bit is
  the one just below the clamped \<open>num_bits\<close> of the call (or \<open>num_bits = 0\<close>), and
  \<open>base_update\<close> is not called with a base below the current one while \<open>empty()\<close> holds,
  then either \<open>num_bits = 0\<close> or some offset below \<open>num_bits\<close> has its bit set; the bit
  set is the one at offset \<open>num_bits - 1\<close>, so the watermark is tight. The rescan of
  \<open>shift_map_right\<close> is covered: a right shift that drops the highest bit leaves the
  watermark just above the highest bit that remains, or 0 when none remains.
\<close>

theorem watermark_invariant:
  assumes "valid_NBITS N"
  shows "(reachable True N r
            \<longrightarrow> (\<forall>k. unat (num_bits r) \<le> k \<longrightarrow> \<not> bit_at (bitmap r) k))
       \<and> (reachable_tight N r
            \<longrightarrow> (num_bits r = 0 \<or> (\<exists>k<unat (num_bits r). bit_at (bitmap r) k))
              \<and> (num_bits r = 0 \<or> bit_at (bitmap r) (unat (num_bits r) - 1))
              \<and> (\<forall>k. unat (num_bits r) \<le> k \<longrightarrow> \<not> bit_at (bitmap r) k))"
proof -
  have upper: "\<forall>k. unat (num_bits r) \<le> k \<longrightarrow> \<not> bit_at (bitmap r) k"
    if "reachable True N r"
    using reachable_watermark_bound [OF assms that] by (auto simp add: watermark_bound_def)
  have tight: "num_bits r = 0 \<or> bit_at (bitmap r) (unat (num_bits r) - 1)"
    if "reachable_tight N r"
    using reachable_tight_watermark [OF assms that] by (simp add: watermark_tight_def)
  have some: "num_bits r = 0 \<or> (\<exists>k<unat (num_bits r). bit_at (bitmap r) k)"
    if t: "reachable_tight N r"
  proof (cases "num_bits r = 0")
    case True
    then show ?thesis by simp
  next
    case False
    then have pos: "0 < unat (num_bits r)" by (simp add: unat_gt_0)
    from tight [OF t] False have "bit_at (bitmap r) (unat (num_bits r) - 1)" by simp
    moreover from pos have "unat (num_bits r) - 1 < unat (num_bits r)" by simp
    ultimately show ?thesis by blast
  qed
  from upper tight some reachable_tight_reachable [of N r] show ?thesis by blast
qed

theorem watermark_invariant_witness:
  "valid_NBITS 256 \<and> reachable True 256 (base_update 256 wire_range 990)
   \<and> reachable_tight 256 (base_update 256 wire_range 990)
   \<and> num_bits (base_update 256 wire_range 990) = 111
   \<and> for_each (base_update 256 wire_range 990) = [1000, 1001, 1002, 1003, 1039, 1100]
   \<and> bit_at (bitmap (base_update 256 wire_range 990)) 110
   \<and> \<not> bit_at (bitmap (base_update 256 wire_range 990)) 111
   \<and> \<not> bit_at (bitmap (base_update 256 wire_range 990)) 255"
proof -
  have v: "valid_NBITS 256" by code_simp
  have r: "reachable True 256 (base_update 256 wire_range 990)"
    by (intro after_base_update reachable_wire_range)
  have ne: "\<not> empty wire_range" by code_simp
  have t: "reachable_tight 256 (base_update 256 wire_range 990)"
    by (rule tight_base_update [OF reachable_tight_wire_range]) (simp add: ne)
  have n: "num_bits (base_update 256 wire_range 990) = 111"
    and f: "for_each (base_update 256 wire_range 990) = [1000, 1001, 1002, 1003, 1039, 1100]"
    by code_simp+
  note w = watermark_invariant [OF v, of "base_update 256 wire_range 990"]
  from w r have
    "\<not> bit_at (bitmap (base_update 256 wire_range 990)) 111"
    "\<not> bit_at (bitmap (base_update 256 wire_range 990)) 255"
    by (simp_all add: n)
  moreover from w t have "bit_at (bitmap (base_update 256 wire_range 990)) 110"
    by (simp add: n)
  ultimately show ?thesis using v r t n f by simp
qed

text \<open>
  C2, as the specification states it: from \<open>BitmapRange(1000)\<close> (\<open>NBITS = 256\<close>) with 1000
  and 1200 added, \<open>base_update(900)\<close> gives the enumeration \<open>[1000, 1200]\<close>, base 900
  and \<open>num_bits = 301\<close>. The code does not: the statement is false.
\<close>

theorem scenario5_as_stated_fails:
  "\<not> (for_each (base_update 256 scenario5 900) = [1000, 1200]
      \<and> base (base_update 256 scenario5 900) = 900
      \<and> num_bits (base_update 256 scenario5 900) = 301)"
  by code_simp

text \<open>
  C2, amended: in that scenario \<open>base_update(900)\<close> shifts the bitmap right by 100 bits;
  the bit of item 1200 (offset 300) falls off the 256-bit window \<open>[900, 1155]\<close>, the
  watermark is found again by the scan, and the result enumerates \<open>[1000]\<close> with
  base 900 and \<open>num_bits = 101\<close>.
\<close>

theorem scenario5_rebase:
  "for_each (base_update 256 scenario5 900) = [1000]
   \<and> base (base_update 256 scenario5 900) = 900
   \<and> num_bits (base_update 256 scenario5 900) = 101"
  by code_simp

text \<open>
  C3, as the specification states it: every item of both windows that was set before
  \<open>base_update(new_base)\<close> is enumerated afterwards, no item outside the new window is
  enumerated afterwards, and no item that was unset before is set afterwards. The code
  does otherwise in two situations that follow from how it is built.
  \<^item> A bit at or above \<open>num_bits\<close>, as \<open>bitmap_set\<close> leaves it: item 1005 of \<open>stray_bits\<close>
    is enumerated and lies in the windows of the bases 1000 and 1001, but
    \<open>base_update(1001)\<close> shifts by \<open>1 \<ge> num_bits\<close> and clears the bitmap.
  \<^item> A new base \<open>2^32\<close> or more away: the difference is assigned to a \<open>uint32_t\<close>, so
    \<open>base_update(2^32)\<close> on \<open>far_range\<close> shifts by 0 bits and item \<open>2^32\<close>, never added,
    is enumerated afterwards.

  The second part also fails when \<open>NBITS\<close> is not a multiple of 32: in \<open>odd_range\<close>
  (\<open>NBITS = 40\<close>), \<open>base_update(990)\<close> moves the bit of item 1039 into the unused bits of
  the last word, the rescan sets \<open>num_bits = 50 > NBITS\<close>, and item 1039 is enumerated
  beyond the new window \<open>[990, 1029]\<close>. Here the code departs from the comment of the
  class ("Range of items will be [base, base + NBITS - 1]"): \<open>shift_map_right\<close> never
  masks the bits of the last word beyond \<open>NBITS\<close>.
\<close>

theorem rebase_as_stated_fails:
  "reachable False 256 stray_bits \<and> base stray_bits = 1000
   \<and> 1005 \<in> set (for_each stray_bits)
   \<and> (1000 :: int) \<le> 1005 \<and> (1005 :: int) \<le> 1000 + 256 - 1
   \<and> (1001 :: int) \<le> 1005 \<and> (1005 :: int) \<le> 1001 + 256 - 1
   \<and> 1005 \<notin> set (for_each (base_update 256 stray_bits 1001))
   \<and> reachable True 256 far_range
   \<and> 4294967296 \<notin> set (for_each far_range)
   \<and> 4294967296 \<in> set (for_each (base_update 256 far_range 4294967296))
   \<and> reachable True 40 odd_range
   \<and> 1039 \<in> set (for_each (base_update 40 odd_range 990))
   \<and> \<not> (1039 :: int) \<le> 990 + 40 - 1
   \<and> num_bits (base_update 40 odd_range 990) = 50"
proof -
  have "base stray_bits = 1000" "1005 \<in> set (for_each stray_bits)"
    "1005 \<notin> set (for_each (base_update 256 stray_bits 1001))"
    "4294967296 \<notin> set (for_each far_range)"
    "4294967296 \<in> set (for_each (base_update 256 far_range 4294967296))"
    "1039 \<in> set (for_each (base_update 40 odd_range 990))"
    "num_bits (base_update 40 odd_range 990) = 50"
    by code_simp+
  then show ?thesis
    using reachable_stray_bits reachable_far_range reachable_odd_range by simp
qed

text \<open>
  C3, amended (\<open>0 < NBITS \<le> 2^30\<close>): let the range be in a state reached by public
  operations in which \<open>bitmap_set\<close> was only given words with no bit at or above its
  \<open>num_bits\<close>, and let the new base be less than \<open>2^32\<close> away from the base. Then every
  item of both windows that \<open>for_each\<close> enumerated before \<open>base_update(new_base)\<close> is
  enumerated afterwards, and every item enumerated afterwards was enumerated before;
  and, when \<open>NBITS\<close> is a multiple of 32, every item enumerated afterwards lies in the
  new window \<open>[new_base, new_base + NBITS - 1]\<close>.
\<close>

theorem base_update_keeps_window_items:
  assumes "valid_NBITS N" and "reachable True N r" and "\<bar>b - base r\<bar> < 2 ^ 32"
  shows "(\<forall>x. x \<in> set (for_each r)
              \<and> base r \<le> x \<and> x \<le> base r + int (unat N) - 1
              \<and> b \<le> x \<and> x \<le> b + int (unat N) - 1
            \<longrightarrow> x \<in> set (for_each (base_update N r b)))
       \<and> (32 dvd unat N
            \<longrightarrow> (\<forall>x\<in>set (for_each (base_update N r b)). b \<le> x \<and> x \<le> b + int (unat N) - 1))
       \<and> (\<forall>x\<in>set (for_each (base_update N r b)). x \<in> set (for_each r))"
proof -
  have wf: "well_formed N r" by (rule reachable_well_formed [OF assms(1,2)])
  have wm: "watermark_bound r" by (rule reachable_watermark_bound [OF assms(1,2)])
  note after = base_update_items_any(1) [OF assms(1) wf wm assms(3)]
    and kept = base_update_items_any(2) [OF assms(1) wf wm assms(3)]
  have p1: "x \<in> set (for_each (base_update N r b))"
    if "x \<in> set (for_each r)" "b \<le> x" "x \<le> b + int (unat N) - 1" for x
    using kept [of x] that by simp
  have p2: "b \<le> x \<and> x \<le> b + int (unat N) - 1"
    if m: "32 dvd unat N" and x: "x \<in> set (for_each (base_update N r b))" for x
  proof -
    from m have "32 * NITEMS N = unat N" by (rule NITEMS_exact)
    with after [OF x] show ?thesis by simp
  qed
  have p3: "x \<in> set (for_each r)" if "x \<in> set (for_each (base_update N r b))" for x
    using after [OF that] by simp
  from p1 p2 p3 show ?thesis by blast
qed

theorem base_update_keeps_window_items_witness:
  "valid_NBITS 256 \<and> 32 dvd unat (256 :: u32) \<and> reachable True 256 wire_range
   \<and> \<bar>990 - base wire_range\<bar> < 2 ^ 32
   \<and> for_each wire_range = [1000, 1001, 1002, 1003, 1039, 1100, 1250]
   \<and> 1100 \<in> set (for_each (base_update 256 wire_range 990))
   \<and> 1250 \<notin> set (for_each (base_update 256 wire_range 990))
   \<and> for_each (base_update 256 wire_range 990) = [1000, 1001, 1002, 1003, 1039, 1100]
   \<and> for_each (base_update 256 wire_range 1002) = [1002, 1003, 1039, 1100, 1250]
   \<and> valid_NBITS 40 \<and> reachable True 40 odd_inner
   \<and> \<bar>990 - base odd_inner\<bar> < 2 ^ 32
   \<and> for_each odd_inner = [1005]
   \<and> 1005 \<in> set (for_each (base_update 40 odd_inner 990))"
proof -
  have v: "valid_NBITS 256" and m: "32 dvd unat (256 :: u32)" by code_simp+
  have d: "\<bar>990 - base wire_range\<bar> < 2 ^ 32" by code_simp
  have f: "for_each wire_range = [1000, 1001, 1002, 1003, 1039, 1100, 1250]" by code_simp
  have b: "base wire_range = 1000" by code_simp
  have a: "for_each (base_update 256 wire_range 990) = [1000, 1001, 1002, 1003, 1039, 1100]"
    "for_each (base_update 256 wire_range 1002) = [1002, 1003, 1039, 1100, 1250]"
    by code_simp+
  have v': "valid_NBITS 40" by code_simp
  have d': "\<bar>990 - base odd_inner\<bar> < 2 ^ 32" by code_simp
  have f': "for_each odd_inner = [1005]" by code_simp
  have b': "base odd_inner = 1000" by code_simp
  note t = base_update_keeps_window_items [OF v reachable_wire_range d]
  note t' = base_update_keeps_window_items [OF v' reachable_odd_inner d']
  from t have "1100 \<in> set (for_each (base_update 256 wire_range 990))"
    by (simp add: f b)
  moreover from t m have "1250 \<notin> set (for_each (base_update 256 wire_range 990))"
    by auto
  moreover from t' have "1005 \<in> set (for_each (base_update 40 odd_inner 990))"
    by (simp add: f' b')
  ultimately show ?thesis
    using v m d f a v' d' f' reachable_wire_range reachable_odd_inner by simp
qed

text \<open>
  C4: the bitmap that \<open>base_update\<close> leaves after an in-place shift is the word-level
  reference of the specification. Moving the base up by \<open>s\<close> (the left shift, taken
  when \<open>s < num_bits\<close>) gives \<open>spec_shift_left\<close> by \<open>s\<close>; moving it down by \<open>s\<close> (the
  right shift, taken when \<open>s < NBITS\<close>) gives \<open>spec_shift_right\<close> by \<open>s\<close>; both for
  \<open>s mod 32 = 0\<close> (word copies and zero fill) and for \<open>s mod 32 > 0\<close>.
\<close>

theorem base_update_bitmap_is_reference:
  assumes "length (bitmap r) = NITEMS NBITS"
  shows "(base r < b \<and> d_func b (base r) < num_bits r \<and> unat (num_bits r) \<le> 32 * NITEMS NBITS
            \<longrightarrow> bitmap (base_update NBITS r b)
                  = spec_shift_left (bitmap r) (unat (d_func b (base r))))
       \<and> (b < base r \<and> d_func (base r) b < NBITS
            \<longrightarrow> bitmap (base_update NBITS r b)
                  = spec_shift_right (bitmap r) (unat (d_func (base r) b)))"
  using assms
  by (simp add: base_update_def Let_def shift_map_left_bitmap shift_map_right_bitmap)

theorem base_update_bitmap_is_reference_witness:
  "length (bitmap scenario2) = NITEMS 256
   \<and> base scenario2 < 1038 \<and> d_func 1038 (base scenario2) < num_bits scenario2
   \<and> unat (num_bits scenario2) \<le> 32 * NITEMS 256
   \<and> bitmap (base_update 256 scenario2 1038) = spec_shift_left (bitmap scenario2) 38
   \<and> bitmap (base_update 256 scenario2 1038) = [0, 0, 0, 0, 0, 0, 64, 0]
   \<and> 900 < base scenario2 \<and> d_func (base scenario2) 900 < 256
   \<and> bitmap (base_update 256 scenario2 900) = spec_shift_right (bitmap scenario2) 100
   \<and> bitmap (base_update 256 scenario2 900) = [0, 0, 0, 138412032, 0, 0, 0, 0]"
proof -
  have len: "length (bitmap scenario2) = NITEMS 256" by code_simp
  have left: "base scenario2 < 1038 \<and> d_func 1038 (base scenario2) < num_bits scenario2
      \<and> unat (num_bits scenario2) \<le> 32 * NITEMS 256" by code_simp
  have right: "900 < base scenario2 \<and> d_func (base scenario2) 900 < 256" by code_simp
  have s: "unat (d_func 1038 (base scenario2)) = 38" "unat (d_func (base scenario2) 900) = 100"
    by code_simp+
  have v: "bitmap (base_update 256 scenario2 1038) = [0, 0, 0, 0, 0, 0, 64, 0]"
    "bitmap (base_update 256 scenario2 900) = [0, 0, 0, 138412032, 0, 0, 0, 0]"
    by code_simp+
  from base_update_bitmap_is_reference [OF len, of 1038] left s
  have "bitmap (base_update 256 scenario2 1038) = spec_shift_left (bitmap scenario2) 38"
    by simp
  moreover from base_update_bitmap_is_reference [OF len, of 900] right s
  have "bitmap (base_update 256 scenario2 900) = spec_shift_right (bitmap scenario2) 100"
    by simp
  ultimately show ?thesis using len left right v by simp
qed

text \<open>
  C5: in every state a sequence of public operations leads to, \<open>add(x)\<close> returns true
  exactly when \<open>base \<le> x \<le> base + NBITS - 1\<close>, and when it returns false the state
  (base, range\_max, bitmap, num\_bits) is the one before the call.
\<close>

theorem add_range_gate:
  assumes "reachable tidy N r" and "0 < N"
  shows "(fst (add r x) \<longleftrightarrow> base r \<le> x \<and> x \<le> base r + int (unat N) - 1)
       \<and> (\<not> fst (add r x) \<longrightarrow> snd (add r x) = r)"
proof -
  have "range_max r = base r + int (unat N) - 1"
    using reachable_range_max [OF assms(1)] uint_pred [OF assms(2)] by simp
  then show ?thesis by (auto simp add: add_def Let_def)
qed

theorem add_range_gate_witness:
  "reachable False 256 scenario2 \<and> 0 < (256 :: u32)
   \<and> base scenario2 = 1000 \<and> int (unat (256 :: u32)) = 256
   \<and> fst (add scenario2 1000) \<and> fst (add scenario2 1255)
   \<and> \<not> fst (add scenario2 999) \<and> snd (add scenario2 999) = scenario2
   \<and> \<not> fst (add scenario2 1256) \<and> snd (add scenario2 1256) = scenario2"
proof -
  have r: "reachable False 256 scenario2"
    unfolding scenario2_def by (intro reachable_add_all constructed)
  have n: "0 < (256 :: u32)" by simp
  have b: "base scenario2 = 1000" by code_simp
  note g = add_range_gate [OF r n]
  from g [of 1000] g [of 1255] g [of 999] g [of 1256] r show ?thesis
    by (simp add: b)
qed

text \<open>
  C6: when distinct items, all within \<open>[base, base + NBITS - 1]\<close>, are added in any order
  to a freshly constructed range, \<open>for_each\<close> calls its function with exactly these
  items, each once, in ascending order: the call sequence is the sorted list.
\<close>

theorem for_each_enumerates_insertions:
  assumes "0 < N" and "distinct xs"
    and "\<forall>x\<in>set xs. b \<le> x \<and> x \<le> b + int (unat N) - 1"
  shows "for_each (add_all (BitmapRange N b) xs) = sort xs"
proof -
  let ?init = "BitmapRange N b" and ?r = "add_all (BitmapRange N b) xs"
  have b0: "base ?init = b" and m0: "range_max ?init = b + int (unat N) - 1"
    using uint_pred [OF assms(1)] by (simp_all add: BitmapRange_def)
  have win: "\<forall>x\<in>set xs. base ?init \<le> x \<and> x \<le> range_max ?init"
    using assms(3) unfolding b0 m0 .
  have none: "{k. bit_at (bitmap ?init) k} = {}" by (simp add: BitmapRange_def)
  from add_all_in_window [OF assms(1) well_formed_BitmapRange watermark_bound_BitmapRange win]
  have wf: "well_formed N ?r" and wm: "watermark_bound ?r" and base: "base ?r = b"
    and bits: "{k. bit_at (bitmap ?r) k} = (\<lambda>x. nat (x - b)) ` set xs"
    unfolding none b0 by simp_all
  have mem: "bit_at (bitmap ?r) k \<longleftrightarrow> k \<in> (\<lambda>x. nat (x - b)) ` set xs" for k
    using bits by (metis mem_Collect_eq)
  have "set (for_each ?r) = {b + int k | k. k \<in> (\<lambda>x. nat (x - b)) ` set xs}"
    unfolding for_each_set_below_watermark [OF wf wm] base mem ..
  also have "\<dots> = set xs" using assms(3) by force
  finally have same: "set (for_each ?r) = set (sort xs)" by simp
  have "n_longs ?r \<le> length (bitmap ?r)"
    using wf by (intro n_longs_le) (simp add: well_formed_def)
  then have "sorted_wrt (<) (for_each ?r)" by (rule for_each_sorted)
  then have "sorted (for_each ?r)" "distinct (for_each ?r)"
    by (simp_all add: strict_sorted_iff)
  then show ?thesis
    using same assms(2) by (intro sorted_distinct_set_unique) simp_all
qed

theorem for_each_enumerates_insertions_witness:
  "0 < (256 :: u32) \<and> distinct [1255, 1000, 1005 :: int]
   \<and> list_all (\<lambda>x. 1000 \<le> x \<and> x \<le> 1000 + int (unat (256 :: u32)) - 1) [1255, 1000, 1005]
   \<and> for_each (add_all (BitmapRange 256 1000) [1255, 1000, 1005]) = [1000, 1005, 1255]"
proof -
  have n: "0 < (256 :: u32)" and d: "distinct [1255, 1000, 1005 :: int]" by simp_all
  have w: "\<forall>x\<in>set [1255, 1000, 1005]. (1000 :: int) \<le> x \<and> x \<le> 1000 + int (unat (256 :: u32)) - 1"
    by simp
  from for_each_enumerates_insertions [OF n d w] show ?thesis by simp
qed

text \<open>
  C7: for every state \<open>r\<close> that a sequence of public operations leads to, taking
  \<open>(num_bits, words, num_longs_used)\<close> from \<open>bitmap_get\<close> and handing \<open>num_bits\<close> and the
  words to \<open>bitmap_set\<close> on a range with the same base gives a range whose \<open>for_each\<close>
  enumeration is that of \<open>r\<close>; it makes no difference whether all the words or only the
  first \<open>num_longs_used\<close> of them are handed over.
\<close>

theorem bitmap_round_trip:
  assumes "valid_NBITS N" and "reachable tidy N r" and "reachable tidy' N r2"
    and "base r2 = base r"
  shows "(case bitmap_get r of (nb, ws, nw) \<Rightarrow>
            for_each (bitmap_set N r2 nb ws) = for_each r
          \<and> for_each (bitmap_set N r2 nb (take (unat nw) ws)) = for_each r)"
proof -
  have wf: "well_formed N r" and wf2: "well_formed N r2"
    using assms(1-3) by (auto intro: reachable_well_formed)
  have len: "length (bitmap r) = NITEMS N" and nb: "unat (num_bits r) \<le> 32 * NITEMS N"
    and len2: "length (bitmap r2) = NITEMS N"
    using wf wf2 by (simp_all add: well_formed_def)
  have nl: "n_longs r \<le> length (bitmap r)" using nb len by (intro n_longs_le) simp
  have "n_longs r \<le> NITEMS N" using nl len by simp
  then have "n_longs r < 2 ^ 32" using NITEMS_bounds(4) [OF assms(1)] by simp
  then have nw: "unat (word_of_nat (n_longs r) :: u32) = n_longs r"
    by (intro of_nat_inverse [OF refl]) simp
  have "for_each (bitmap_set N r2 (num_bits r) (bitmap r)) = for_each r"
    using nl by (intro for_each_bitmap_set [OF wf len2 assms(4)]) simp_all
  moreover have "for_each (bitmap_set N r2 (num_bits r) (take (n_longs r) (bitmap r))) = for_each r"
    using nl by (intro for_each_bitmap_set [OF wf len2 assms(4)]) simp_all
  ultimately show ?thesis
    by (simp add: bitmap_get_def nw n_longs_def [symmetric])
qed

theorem bitmap_round_trip_witness:
  "valid_NBITS 256 \<and> reachable False 256 scenario2
   \<and> reachable False 256 (BitmapRange 256 1000)
   \<and> base (BitmapRange 256 1000) = base scenario2
   \<and> bitmap_get scenario2 = (256, [2214592512, 0, 0, 0, 0, 0, 0, 1], 8)
   \<and> for_each scenario2 = [1000, 1005, 1255]
   \<and> for_each (bitmap_set 256 (BitmapRange 256 1000) 256 [2214592512, 0, 0, 0, 0, 0, 0, 1])
       = [1000, 1005, 1255]"
proof -
  have v: "valid_NBITS 256" by code_simp
  have r: "reachable False 256 scenario2"
    unfolding scenario2_def by (intro reachable_add_all constructed)
  have r2: "reachable False 256 (BitmapRange 256 1000)" by (rule constructed)
  have b: "base (BitmapRange 256 1000) = base scenario2" by code_simp
  have g: "bitmap_get scenario2 = (256, [2214592512, 0, 0, 0, 0, 0, 0, 1], 8)" by code_simp
  have f: "for_each scenario2 = [1000, 1005, 1255]" by code_simp
  from bitmap_round_trip [OF v r r2 b] show ?thesis
    using v r r2 b g f by simp
qed

text \<open>
  C8: \<open>bitmap_set(num_bits, words)\<close> sets the watermark to \<open>min(num_bits, NBITS)\<close>, copies
  exactly \<open>(min(num_bits, NBITS) + 31) / 32\<close> words of the input to the front of the
  bitmap, zeroes all the other words, and leaves \<open>base\<close> and \<open>range_max\<close> as they
  are. The copied words are the input's, bit for bit: also the bits of the last copied
  word that lie at or above \<open>num_bits\<close>.
\<close>

theorem bitmap_set_copies_words:
  assumes "length (bitmap r) = NITEMS N"
    and "(unat (min nb N) + 31) div 32 \<le> length ws"
  shows "num_bits (bitmap_set N r nb ws) = min nb N
       \<and> take ((unat (min nb N) + 31) div 32) (bitmap (bitmap_set N r nb ws))
           = take ((unat (min nb N) + 31) div 32) ws
       \<and> drop ((unat (min nb N) + 31) div 32) (bitmap (bitmap_set N r nb ws))
           = replicate (NITEMS N - (unat (min nb N) + 31) div 32) 0
       \<and> length (bitmap (bitmap_set N r nb ws)) = NITEMS N
       \<and> base (bitmap_set N r nb ws) = base r
       \<and> range_max (bitmap_set N r nb ws) = range_max r
       \<and> (\<forall>k. k < 32 * ((unat (min nb N) + 31) div 32)
              \<longrightarrow> bit_at (bitmap (bitmap_set N r nb ws)) k = bit_at ws k)"
proof -
  note e = bitmap_set_effect [OF assms(1), of nb ws]
  have "bit_at (bitmap (bitmap_set N r nb ws)) k = bit_at ws k"
    if "k < 32 * ((unat (min nb N) + 31) div 32)" for k
    unfolding e using that assms(2) by (rule bit_at_append_take)
  then show ?thesis
    unfolding e using assms(2) words_used_le [of nb N] by simp
qed

theorem bitmap_set_copies_words_witness:
  "length (bitmap (BitmapRange 256 1000)) = NITEMS 256
   \<and> (unat (min 1 (256 :: u32)) + 31) div 32 \<le> length [67108864 :: u32]
   \<and> num_bits stray_bits = 1
   \<and> bitmap stray_bits = [67108864, 0, 0, 0, 0, 0, 0, 0]
   \<and> base stray_bits = 1000 \<and> range_max stray_bits = 1255
   \<and> bit_at (bitmap stray_bits) 5
   \<and> num_bits (bitmap_set 256 (BitmapRange 256 1000) 300 [1, 2, 3, 4, 5, 6, 7, 8, 9, 10]) = 256
   \<and> bitmap (bitmap_set 256 (BitmapRange 256 1000) 300 [1, 2, 3, 4, 5, 6, 7, 8, 9, 10])
       = [1, 2, 3, 4, 5, 6, 7, 8]"
proof -
  have l: "length (bitmap (BitmapRange 256 1000)) = NITEMS 256" by code_simp
  have w: "(unat (min 1 (256 :: u32)) + 31) div 32 \<le> length [67108864 :: u32]" by code_simp
  have n: "(unat (min 1 (256 :: u32)) + 31) div 32 = 1" "NITEMS 256 = 8" "min 1 (256 :: u32) = 1"
    by code_simp+
  have b: "bit_at [67108864] 5" "base (BitmapRange 256 1000) = 1000"
    "range_max (BitmapRange 256 1000) = 1255"
    by code_simp+
  note t = bitmap_set_copies_words [OF l w, unfolded n, folded stray_bits_def]
  have len: "length (bitmap stray_bits) = 8" using t by simp
  have hd: "take 1 (bitmap stray_bits) = [67108864]" using t by simp
  have tl: "drop 1 (bitmap stray_bits) = replicate 7 0" using t by simp
  have "bitmap stray_bits = take 1 (bitmap stray_bits) @ drop 1 (bitmap stray_bits)" by simp
  then have bm: "bitmap stray_bits = [67108864, 0, 0, 0, 0, 0, 0, 0]"
    unfolding hd tl by (simp add: numeral_eq_Suc)
  have "bit_at (bitmap stray_bits) 5" using t b(1) by simp
  moreover have "num_bits (bitmap_set 256 (BitmapRange 256 1000) 300 [1, 2, 3, 4, 5, 6, 7, 8, 9, 10]) = 256"
    "bitmap (bitmap_set 256 (BitmapRange 256 1000) 300 [1, 2, 3, 4, 5, 6, 7, 8, 9, 10])
       = [1, 2, 3, 4, 5, 6, 7, 8]"
    by code_simp+
  ultimately show ?thesis using l w t b bm by simp
qed

text \<open>
  C9: let the range be empty (\<open>empty()\<close> is true) in a state that public operations lead
  to; all words of its bitmap are then 0. \<open>base_update(new_base)\<close> with \<open>new_base\<close> below
  the base and \<open>0 < Diff(base, new_base) < NBITS\<close> leaves every word of the bitmap 0 but
  sets \<open>num_bits\<close> to the shift \<open>Diff(base, new_base)\<close>: afterwards \<open>empty()\<close> is false,
  \<open>for_each\<close> calls its function for no item, and \<open>max()\<close> is \<open>new_base + shift - 1\<close>.
\<close>

theorem base_update_down_on_empty:
  assumes "valid_NBITS N" and "reachable tidy N r" and "empty r"
    and "b < base r" and "0 < d_func (base r) b" and "d_func (base r) b < N"
  shows "bitmap r = replicate (NITEMS N) 0
       \<and> bitmap (base_update N r b) = replicate (NITEMS N) 0
       \<and> num_bits (base_update N r b) = d_func (base r) b
       \<and> \<not> empty (base_update N r b)
       \<and> for_each (base_update N r b) = []
       \<and> max_item (base_update N r b) = b + uint (d_func (base r) b) - 1"
proof -
  have e0: "num_bits r = 0" using assms(3) by (simp add: empty_def)
  have z: "bitmap r = replicate (NITEMS N) 0"
    by (rule reachable_empty_zero [OF assms(1,2) e0])
  note e = base_update_empty_down [OF z e0 assms(4,6)]
  have "b \<noteq> base r" using assms(4) by simp
  then have "base (base_update N r b) = b" by (rule base_update_fields)
  moreover have "uint (d_func (base r) b - 1) = uint (d_func (base r) b) - 1"
    using uint_pred [OF assms(5)] by simp
  ultimately have "max_item (base_update N r b) = b + uint (d_func (base r) b) - 1"
    by (simp add: max_item_def e(2))
  moreover have "\<not> empty (base_update N r b)"
    using assms(5) by (simp add: empty_def e(2))
  ultimately show ?thesis using e z by simp
qed

theorem base_update_down_on_empty_witness:
  "valid_NBITS 256 \<and> reachable False 256 (base_update 256 scenario2 2000)
   \<and> empty (base_update 256 scenario2 2000)
   \<and> base (base_update 256 scenario2 2000) = 2000
   \<and> d_func 2000 1900 = 100 \<and> (0 :: u32) < 100 \<and> (100 :: u32) < 256
   \<and> bitmap (base_update 256 (base_update 256 scenario2 2000) 1900) = replicate (NITEMS 256) 0
   \<and> num_bits (base_update 256 (base_update 256 scenario2 2000) 1900) = 100
   \<and> \<not> empty (base_update 256 (base_update 256 scenario2 2000) 1900)
   \<and> for_each (base_update 256 (base_update 256 scenario2 2000) 1900) = []
   \<and> max_item (base_update 256 (base_update 256 scenario2 2000) 1900) = 1999"
proof -
  have v: "valid_NBITS 256" by code_simp
  have r: "reachable False 256 (base_update 256 scenario2 2000)"
    unfolding scenario2_def by (intro after_base_update reachable_add_all constructed)
  have e: "empty (base_update 256 scenario2 2000)" by code_simp
  have b: "base (base_update 256 scenario2 2000) = 2000" by code_simp
  have d: "d_func 2000 1900 = 100" by code_simp
  have l: "1900 < base (base_update 256 scenario2 2000)" unfolding b by simp
  have p: "0 < d_func (base (base_update 256 scenario2 2000)) 1900"
    and q: "d_func (base (base_update 256 scenario2 2000)) 1900 < 256"
    unfolding b d by simp_all
  from base_update_down_on_empty [OF v r e l p q] show ?thesis
    using v r e by (simp add: b d)
qed

text \<open>
  C10: \<open>for_each\<close> reads the words \<open>0 .. n_longs - 1\<close> of the bitmap only, where
  \<open>n_longs = (num_bits + 31) / 32\<close>. It calls its function, in ascending order, with
  \<open>base + k\<close> for exactly the offsets \<open>k < 32 * n_longs\<close> whose bit is set: a bit of the
  last word read is emitted also when its offset is at or above \<open>num_bits\<close>, a bit at an
  offset from \<open>32 * n_longs\<close> on never is, and the words from \<open>n_longs\<close> on do not
  influence the result.
\<close>

theorem for_each_reads_leading_words:
  assumes "n_longs r \<le> length (bitmap r)"
  shows "for_each r = map (\<lambda>k. base r + int k) (filter (bit_at (bitmap r)) [0..<32 * n_longs r])
       \<and> (\<forall>bm'. length bm' = length (bitmap r)
                 \<and> take (n_longs r) bm' = take (n_longs r) (bitmap r)
               \<longrightarrow> for_each (r\<lparr>bitmap := bm'\<rparr>) = for_each r)"
proof (intro conjI allI impI)
  show "for_each r = map (\<lambda>k. base r + int k) (filter (bit_at (bitmap r)) [0..<32 * n_longs r])"
    by (rule for_each_eq [OF assms])
next
  fix bm'
  assume a: "length bm' = length (bitmap r) \<and> take (n_longs r) bm' = take (n_longs r) (bitmap r)"
  let ?r = "r\<lparr>bitmap := bm'\<rparr>"
  have n: "n_longs ?r = n_longs r" by (simp add: n_longs_def)
  have same: "bit_at bm' k \<longleftrightarrow> bit_at (bitmap r) k" if "k < 32 * n_longs r" for k
  proof -
    have i: "k div 32 < n_longs r" using that by simp
    have "bm' ! (k div 32) = take (n_longs r) bm' ! (k div 32)" using i by simp
    also have "\<dots> = bitmap r ! (k div 32)" using a i by simp
    finally show ?thesis using a by (simp add: bit_at_def)
  qed
  have "filter (bit_at bm') [0..<32 * n_longs r] = filter (bit_at (bitmap r)) [0..<32 * n_longs r]"
    by (rule filter_cong) (simp_all add: same)
  then show "for_each ?r = for_each r"
    using for_each_eq [of ?r] for_each_eq [OF assms] assms a by (simp add: n)
qed

theorem for_each_reads_leading_words_witness:
  "n_longs stray_bits \<le> length (bitmap stray_bits)
   \<and> num_bits stray_bits = 1 \<and> bit_at (bitmap stray_bits) 5
   \<and> for_each stray_bits = [1005]
   \<and> bit_at ((bitmap stray_bits)[1 := 1]) 63
   \<and> for_each (stray_bits\<lparr>bitmap := (bitmap stray_bits)[1 := 1]\<rparr>) = [1005]"
proof -
  have h: "n_longs stray_bits \<le> length (bitmap stray_bits)" by code_simp
  have v: "map (\<lambda>k. base stray_bits + int k)
      (filter (bit_at (bitmap stray_bits)) [0..<32 * n_longs stray_bits]) = [1005]"
    by code_simp
  have l: "length ((bitmap stray_bits)[1 := 1]) = length (bitmap stray_bits)
      \<and> take (n_longs stray_bits) ((bitmap stray_bits)[1 := 1])
        = take (n_longs stray_bits) (bitmap stray_bits)"
    by code_simp
  have s: "num_bits stray_bits = 1" "bit_at (bitmap stray_bits) 5"
    "bit_at ((bitmap stray_bits)[1 := 1]) 63"
    by code_simp+
  from for_each_reads_leading_words [OF h] v l
  have "for_each stray_bits = [1005]"
    "for_each (stray_bits\<lparr>bitmap := (bitmap stray_bits)[1 := 1]\<rparr>) = [1005]"
    by simp_all
  with h s show ?thesis by simp
qed

end
